theory Spec2Isabelle
  imports Main "HOL-Library.Sublist" "HOL-Library.Multiset" "HOL-Library.Signed_Division"
begin

section \<open>Strings\<close>

text \<open>
  A Go \<^verbatim>\<open>string\<close> is a sequence of bytes: \<^verbatim>\<open>len(s)\<close> counts bytes and \<^verbatim>\<open>s[i]\<close> reads
  one byte. It is modelled as \<^typ>\<open>string\<close>, a list of 8-bit characters. Text is held in
  UTF-8, so a character outside ASCII is two to four bytes; a \<open>rune\<close> is its code point.
\<close>

type_synonym rune = int

definition RuneError :: rune where
  "RuneError = 0xFFFD"

definition inRange :: "int \<Rightarrow> int \<Rightarrow> int \<Rightarrow> bool" where
  "inRange lo hi b = (lo \<le> b \<and> b \<le> hi)"

definition byte :: "char \<Rightarrow> int" where
  "byte c = of_char c"

text \<open>\<^verbatim>\<open>HasPrefix(s, prefix) = len(s) >= len(prefix) && s[:len(prefix)] == prefix\<close>\<close>

definition HasPrefix :: "string \<Rightarrow> string \<Rightarrow> bool" where
  "HasPrefix s pre = (length s \<ge> length pre \<and> take (length pre) s = pre)"

text \<open>
  \<^verbatim>\<open>Contains(s, substr) = Index(s, substr) >= 0\<close>: the search for the first offset of
  \<^verbatim>\<open>s\<close> at which \<^verbatim>\<open>substr\<close> starts.
\<close>

fun Contains :: "string \<Rightarrow> string \<Rightarrow> bool" where
  "Contains [] substr = (substr = [])"
| "Contains (c # cs) substr = (HasPrefix (c # cs) substr \<or> Contains cs substr)"

subsection \<open>Decoding and encoding UTF-8\<close>

text \<open>
  \<open>cont cs i\<close>: byte \<open>i\<close> of \<open>cs\<close> exists and is a continuation byte; \<open>low6\<close> is its payload
  and is only read under that guard.
\<close>

definition cont :: "string \<Rightarrow> nat \<Rightarrow> bool" where
  "cont cs i = (i < length cs \<and> inRange 0x80 0xBF (byte (cs ! i)))"

definition low6 :: "string \<Rightarrow> nat \<Rightarrow> int" where
  "low6 cs i = byte (cs ! i) mod 0x40"

text \<open>
  The rune that starts with byte \<open>b0\<close>, and how many of the bytes \<open>cs\<close> that follow belong
  to it. As in package \<^verbatim>\<open>utf8\<close>, only shortest encodings of code points up to U+10FFFF
  that are no surrogates are accepted; anything else is \<open>RuneError\<close> for the one byte.
\<close>

definition decodeAfter :: "int \<Rightarrow> string \<Rightarrow> rune \<times> nat" where
  "decodeAfter b0 cs =
     (if b0 < 0x80 then (b0, 0)
      else if inRange 0xC2 0xDF b0 \<and> cont cs 0
        then ((b0 mod 0x20) * 0x40 + low6 cs 0, 1)
      else if inRange 0xE0 0xEF b0 \<and> cont cs 0 \<and> cont cs 1 \<and>
              (b0 = 0xE0 \<longrightarrow> 0xA0 \<le> byte (cs ! 0)) \<and> (b0 = 0xED \<longrightarrow> byte (cs ! 0) \<le> 0x9F)
        then ((b0 mod 0x10) * 0x1000 + low6 cs 0 * 0x40 + low6 cs 1, 2)
      else if inRange 0xF0 0xF4 b0 \<and> cont cs 0 \<and> cont cs 1 \<and> cont cs 2 \<and>
              (b0 = 0xF0 \<longrightarrow> 0x90 \<le> byte (cs ! 0)) \<and> (b0 = 0xF4 \<longrightarrow> byte (cs ! 0) \<le> 0x8F)
        then ((b0 mod 8) * 0x40000 + low6 cs 0 * 0x1000 + low6 cs 1 * 0x40 + low6 cs 2, 3)
      else (RuneError, 0))"

text \<open>\<^verbatim>\<open>utf8.DecodeRuneInString\<close>: the first rune and its width in bytes.\<close>

fun DecodeRuneInString :: "string \<Rightarrow> rune \<times> nat" where
  "DecodeRuneInString [] = (RuneError, 0)"
| "DecodeRuneInString (c # cs) =
     (fst (decodeAfter (byte c) cs), Suc (snd (decodeAfter (byte c) cs)))"

text \<open>
  \<^verbatim>\<open>for _, r := range s\<close>: the runes of \<open>s\<close> in order, each with the bytes it was read
  from. A byte that starts no valid encoding gives \<open>RuneError\<close> and is passed alone.
\<close>

function rangeString :: "string \<Rightarrow> (rune \<times> string) list" where
  "rangeString [] = []"
| "rangeString (c # cs) =
     (fst (decodeAfter (byte c) cs), c # take (snd (decodeAfter (byte c) cs)) cs) #
     rangeString (drop (snd (decodeAfter (byte c) cs)) cs)"
  by pat_completeness auto
termination
  by (relation "measure length") simp_all

text \<open>\<^verbatim>\<open>utf8.AppendRune\<close>: a value that is no code point is written as \<open>RuneError\<close>.\<close>

definition EncodeRune :: "rune \<Rightarrow> string" where
  "EncodeRune r0 =
     (let r = (if r0 < 0 \<or> r0 > 0x10FFFF \<or> inRange 0xD800 0xDFFF r0 then RuneError else r0) in
      if r \<le> 0x7F then [char_of r]
      else if r \<le> 0x7FF then [char_of (0xC0 + r div 0x40), char_of (0x80 + r mod 0x40)]
      else if r \<le> 0xFFFF then
        [char_of (0xE0 + r div 0x1000), char_of (0x80 + (r div 0x40) mod 0x40),
         char_of (0x80 + r mod 0x40)]
      else
        [char_of (0xF0 + r div 0x40000), char_of (0x80 + (r div 0x1000) mod 0x40),
         char_of (0x80 + (r div 0x40) mod 0x40), char_of (0x80 + r mod 0x40)])"

subsection \<open>strings.ToLower\<close>

text \<open>
  \<^verbatim>\<open>strings.Map\<close> writes the image of every rune and drops a rune whose image is negative.
  (The source returns the string itself when no rune changes; that is the same bytes.)
\<close>

definition Map :: "(rune \<Rightarrow> rune) \<Rightarrow> string \<Rightarrow> string" where
  "Map mapping s =
     concat (map (\<lambda>(r, bs). if 0 \<le> mapping r then EncodeRune (mapping r) else [])
               (rangeString s))"

text \<open>
  \<^verbatim>\<open>unicode.ToLower\<close> adds \<^verbatim>\<open>'a' - 'A'\<close> to the ASCII letters \<^verbatim>\<open>'A'..'Z'\<close>, keeps the other
  ASCII runes, and looks every other rune up in the case tables of the Unicode standard
  (\<^verbatim>\<open>unicode.CaseRanges\<close>). Those tables are data of the Go distribution; they are the
  parameter \<open>tbl\<close>, which gives the lower-case code point of a code point above U+007F,
  and every theorem holds for every table.
\<close>

type_synonym caseTable = "nat \<Rightarrow> nat"

definition unicodeToLower :: "caseTable \<Rightarrow> rune \<Rightarrow> rune" where
  "unicodeToLower tbl r =
     (if r \<le> 0x7F then (if inRange 0x41 0x5A r then r + 0x20 else r) else int (tbl (nat r)))"

definition asciiLower :: "char \<Rightarrow> char" where
  "asciiLower c = (if inRange 0x41 0x5A (byte c) then char_of (byte c + 0x20) else c)"

text \<open>
  \<^verbatim>\<open>strings.ToLower\<close>: a string of ASCII bytes is lower-cased byte by byte; any other
  string goes through \<^verbatim>\<open>Map(unicode.ToLower, s)\<close>.
\<close>

definition ToLower :: "caseTable \<Rightarrow> string \<Rightarrow> string" where
  "ToLower tbl s =
     (if list_all (\<lambda>c. byte c < 0x80) s then map asciiLower s
      else Map (unicodeToLower tbl) s)"

subsection \<open>strings.Fields\<close>

text \<open>
  \<^verbatim>\<open>unicode.IsSpace\<close>: the six ASCII white-space characters, U+0085 and U+00A0, and the
  other code points with the property White_Space.
\<close>

definition IsSpace :: "rune \<Rightarrow> bool" where
  "IsSpace r =
     (if r \<le> 0xFF then r \<in> {0x09, 0x0A, 0x0B, 0x0C, 0x0D, 0x20, 0x85, 0xA0}
      else r = 0x1680 \<or> inRange 0x2000 0x200A r \<or> r = 0x2028 \<or> r = 0x2029 \<or>
           r = 0x202F \<or> r = 0x205F \<or> r = 0x3000)"

text \<open>
  \<^verbatim>\<open>Fields\<close> scans the runes once; \<open>cur\<close> is the field that has been started and not
  yet closed (empty when the scan is between fields). On a string of ASCII bytes the
  source takes a shortcut with a table of the six ASCII white-space bytes, which are the
  ASCII runes that \<open>IsSpace\<close> accepts.
\<close>

fun fieldsFrom :: "string \<Rightarrow> (rune \<times> string) list \<Rightarrow> string list" where
  "fieldsFrom cur [] = (if cur = [] then [] else [cur])"
| "fieldsFrom cur ((r, bs) # rest) =
     (if IsSpace r then (if cur = [] then fieldsFrom [] rest else cur # fieldsFrom [] rest)
      else fieldsFrom (cur @ bs) rest)"

definition Fields :: "string \<Rightarrow> string list" where
  "Fields s = fieldsFrom [] (rangeString s)"

text \<open>Go's integer division truncates towards zero.\<close>

definition quo :: "int \<Rightarrow> int \<Rightarrow> int" where
  "quo a b = a sdiv b"

section \<open>levenshteinDistance\<close>

text \<open>
  The matrix is a list of rows. \<open>initMatrix\<close> is the allocation and the two loops that
  set column 0 and row 0; \<open>fillRow\<close> is the inner loop over \<open>j\<close> for one \<open>i\<close>, \<open>fillMatrix\<close>
  the outer loop. All indices the loops use are inside the matrix.
\<close>

type_synonym matrix = "int list list"

definition setCell :: "matrix \<Rightarrow> nat \<Rightarrow> nat \<Rightarrow> int \<Rightarrow> matrix" where
  "setCell m i j v = m[i := (m ! i)[j := v]]"

definition initMatrix :: "nat \<Rightarrow> nat \<Rightarrow> matrix" where
  "initMatrix n1 n2 =
     (let m0 = map (\<lambda>i. (replicate (n2 + 1) 0)[0 := int i]) [0..<n1 + 1]
      in fold (\<lambda>j m. setCell m 0 j (int j)) [0..<n2 + 1] m0)"

definition min3 :: "int \<Rightarrow> int \<Rightarrow> int \<Rightarrow> int" where
  "min3 a b c = min a (min b c)"

definition cellStep :: "string \<Rightarrow> string \<Rightarrow> nat \<Rightarrow> nat \<Rightarrow> matrix \<Rightarrow> matrix" where
  "cellStep s1 s2 i j m =
     (let cost = (if s1 ! (i - 1) = s2 ! (j - 1) then 0 else 1)
      in setCell m i j
           (min3 (m ! (i - 1) ! j + 1) (m ! i ! (j - 1) + 1) (m ! (i - 1) ! (j - 1) + cost)))"

definition fillRow :: "string \<Rightarrow> string \<Rightarrow> nat \<Rightarrow> matrix \<Rightarrow> matrix" where
  "fillRow s1 s2 i m = fold (cellStep s1 s2 i) [1..<length s2 + 1] m"

definition fillMatrix :: "string \<Rightarrow> string \<Rightarrow> matrix \<Rightarrow> matrix" where
  "fillMatrix s1 s2 m = fold (fillRow s1 s2) [1..<length s1 + 1] m"

definition levenshteinDistance :: "caseTable \<Rightarrow> string \<Rightarrow> string \<Rightarrow> int" where
  "levenshteinDistance tbl a b =
     (let s1 = ToLower tbl a; s2 = ToLower tbl b
      in if length s1 = 0 then int (length s2)
         else if length s2 = 0 then int (length s1)
         else fillMatrix s1 s2 (initMatrix (length s1) (length s2)) ! length s1 ! length s2)"

section \<open>scoreSuggestion\<close>

text \<open>
  \<open>wordLoop\<close> is the loop over the words of the name: it returns at the first word whose
  distance is within \<open>maxDistance\<close>, and \<open>None\<close> when the loop runs to its end.
\<close>

fun wordLoop :: "caseTable \<Rightarrow> string list \<Rightarrow> string \<Rightarrow> int \<Rightarrow> int option" where
  "wordLoop tbl [] queryLower maxDistance = None"
| "wordLoop tbl (word # words) queryLower maxDistance =
     (let wordDist = levenshteinDistance tbl word queryLower
      in if wordDist \<le> maxDistance then Some (80 - wordDist * 15)
         else wordLoop tbl words queryLower maxDistance)"

definition scoreSuggestion :: "caseTable \<Rightarrow> string \<Rightarrow> string \<Rightarrow> int" where
  "scoreSuggestion tbl name query =
     (let nameLower = ToLower tbl name; queryLower = ToLower tbl query
      in if nameLower = queryLower then 1000
         else if HasPrefix nameLower queryLower then 500
         else if Contains nameLower queryLower then 200
         else if length query \<ge> 3 then
           (let distance = levenshteinDistance tbl nameLower queryLower;
                maxDistance = quo (int (length query)) 2
            in if distance \<le> maxDistance then 100 - distance * 20
               else (case wordLoop tbl (Fields nameLower) queryLower maxDistance of
                       Some score \<Rightarrow> score
                     | None \<Rightarrow> 0))
         else 0)"

section \<open>Edit distance\<close>

text \<open>
  The Levenshtein distance as the specification has it: the least number of insertions,
  deletions and substitutions of one character that turn one string into the other.
  \<open>applyEdits\<close> runs a list of such operations, each at a position of the current string;
  \<open>editDistance\<close> is the textbook recursion, shown below to be that least number.
\<close>

fun editDistance :: "'a list \<Rightarrow> 'a list \<Rightarrow> nat" where
  "editDistance [] ys = length ys"
| "editDistance xs [] = length xs"
| "editDistance (x # xs) (y # ys) =
     min (editDistance xs (y # ys) + 1)
         (min (editDistance (x # xs) ys + 1)
              (editDistance xs ys + (if x = y then 0 else 1)))"

datatype 'a edit = Insert nat 'a | Delete nat | Substitute nat 'a

fun applyEdit :: "'a edit \<Rightarrow> 'a list \<Rightarrow> 'a list option" where
  "applyEdit (Insert i c) s = (if i \<le> length s then Some (take i s @ c # drop i s) else None)"
| "applyEdit (Delete i) s = (if i < length s then Some (take i s @ drop (Suc i) s) else None)"
| "applyEdit (Substitute i c) s = (if i < length s then Some (s[i := c]) else None)"

fun applyEdits :: "'a edit list \<Rightarrow> 'a list \<Rightarrow> 'a list option" where
  "applyEdits [] s = Some s"
| "applyEdits (e # es) s = (case applyEdit e s of None \<Rightarrow> None | Some s' \<Rightarrow> applyEdits es s')"

text \<open>
  One operation, seen from the front of the list (used in the proofs only): an operation
  at the head, or an operation further in.
\<close>

inductive editStep :: "'a list \<Rightarrow> 'a list \<Rightarrow> bool" where
  ins: "editStep xs (c # xs)"
| del: "editStep (c # xs) xs"
| sub: "editStep (c # xs) (d # xs)"
| skip: "editStep xs ys \<Longrightarrow> editStep (c # xs) (c # ys)"

text \<open>
  One operation, seen from the front of the list (used in the proofs only): an operation
  at the head, or an operation further in.
\<close>

inductive editSteps :: "nat \<Rightarrow> 'a list \<Rightarrow> 'a list \<Rightarrow> bool" where
  done0: "editSteps 0 xs xs"
| more: "editStep xs ys \<Longrightarrow> editSteps n ys zs \<Longrightarrow> editSteps (Suc n) xs zs"

fun shiftEdit :: "'a edit \<Rightarrow> 'a edit" where
  "shiftEdit (Insert i c) = Insert (Suc i) c"
| "shiftEdit (Delete i) = Delete (Suc i)"
| "shiftEdit (Substitute i c) = Substitute (Suc i) c"


text \<open>The value the loops compute for the prefixes of length \<open>i\<close> and \<open>j\<close>.\<close>

definition prefixDistance :: "string \<Rightarrow> string \<Rightarrow> nat \<Rightarrow> nat \<Rightarrow> int" where
  "prefixDistance s1 s2 i j = int (editDistance (rev (take i s1)) (rev (take j s2)))"

text \<open>
  The loop invariant: the matrix has its shape, column 0 is set, every row before \<open>i\<close> is
  done and row \<open>i\<close> is done up to column \<open>j\<close>.
\<close>

definition filled :: "string \<Rightarrow> string \<Rightarrow> matrix \<Rightarrow> nat \<Rightarrow> nat \<Rightarrow> bool" where
  "filled s1 s2 m i j \<longleftrightarrow>
     length m = length s1 + 1 \<and>
     (\<forall>r \<le> length s1. length (m ! r) = length s2 + 1) \<and>
     (\<forall>r \<le> length s1. m ! r ! 0 = int r) \<and>
     (\<forall>r < i. \<forall>c \<le> length s2. m ! r ! c = prefixDistance s1 s2 r c) \<and>
     (\<forall>c \<le> j. m ! i ! c = prefixDistance s1 s2 i c)"

section \<open>The history store\<close>

text \<open>
  The table \<^verbatim>\<open>item_history\<close> is a list of rows in insertion order, and \<^verbatim>\<open>sections\<close> the
  pairs (id, name) of the sections table, whose id is its primary key. \<open>history_seq\<close> is
  the counter of \<^verbatim>\<open>AUTOINCREMENT\<close>: the largest row id a statement has drawn. The column
  \<^verbatim>\<open>last_section_id\<close> may be \<^verbatim>\<open>NULL\<close>; \<^verbatim>\<open>usage_count\<close> and \<^verbatim>\<open>last_used_at\<close> are only
  ever written with integers. SQLite integers and Go's \<^verbatim>\<open>int\<close> and \<^verbatim>\<open>int64\<close> are 64-bit;
  no operation below comes near that range, and they are modelled as \<^typ>\<open>int\<close>.

  A statement fails when the database cannot be reached; \<open>failing\<close> says so, and every
  function returns the error of \<^verbatim>\<open>DB.Query\<close> or \<^verbatim>\<open>DB.Exec\<close> where the source does.
\<close>

datatype error = StorageError | NotFound

record history_row =
  row_id :: int
  row_name :: string
  last_section_id :: "int option"
  usage_count :: int
  last_used_at :: int

record database =
  item_history :: "history_row list"
  sections :: "(int \<times> string) list"
  history_seq :: int
  failing :: bool

record ItemSuggestion =
  Name :: string
  LastSectionID :: int
  LastSectionName :: string
  UsageCount :: int

text \<open>
  \<^verbatim>\<open>sort.Slice(x, less)\<close> and \<^verbatim>\<open>ORDER BY\<close> are modelled by insertion with the strict
  comparison \<open>lt\<close>. Neither promises an order among elements that compare equal; the
  model keeps them in their order of arrival, and no theorem below depends on that.
\<close>

fun insertLess :: "('a \<Rightarrow> 'a \<Rightarrow> bool) \<Rightarrow> 'a \<Rightarrow> 'a list \<Rightarrow> 'a list" where
  "insertLess lt x [] = [x]"
| "insertLess lt x (y # ys) = (if lt y x then y # insertLess lt x ys else x # y # ys)"

definition sortSlice :: "('a \<Rightarrow> 'a \<Rightarrow> bool) \<Rightarrow> 'a list \<Rightarrow> 'a list" where
  "sortSlice lt xs = foldr (insertLess lt) xs []"

text \<open>\<^verbatim>\<open>ORDER BY h.usage_count DESC, h.last_used_at DESC\<close>\<close>

definition rankedBefore :: "history_row \<Rightarrow> history_row \<Rightarrow> bool" where
  "rankedBefore a b =
     (usage_count a > usage_count b \<or>
      (usage_count a = usage_count b \<and> last_used_at a > last_used_at b))"

text \<open>\<^verbatim>\<open>... ORDER BY h.usage_count DESC, h.last_used_at DESC LIMIT n\<close>\<close>

definition historyWindow :: "database \<Rightarrow> nat \<Rightarrow> history_row list" where
  "historyWindow db n = take n (sortSlice rankedBefore (item_history db))"

text \<open>
  The selected columns of one row, joined with its section:
  \<^verbatim>\<open>h.name, COALESCE(h.last_section_id, 0), COALESCE(s.name, ''), h.usage_count\<close>
  with \<^verbatim>\<open>LEFT JOIN sections s ON h.last_section_id = s.id\<close>.
\<close>

definition toSuggestion :: "database \<Rightarrow> history_row \<Rightarrow> ItemSuggestion" where
  "toSuggestion db h =
     \<lparr>Name = row_name h,
      LastSectionID = (case last_section_id h of None \<Rightarrow> 0 | Some i \<Rightarrow> i),
      LastSectionName =
        (case last_section_id h of
           None \<Rightarrow> []
         | Some i \<Rightarrow> (case map_of (sections db) i of None \<Rightarrow> [] | Some n \<Rightarrow> n)),
      UsageCount = usage_count h\<rparr>"

definition selectHistory :: "database \<Rightarrow> nat \<Rightarrow> error + ItemSuggestion list" where
  "selectHistory db n =
     (if failing db then Inl StorageError else Inr (map (toSuggestion db) (historyWindow db n)))"

subsection \<open>SaveItemHistory\<close>

text \<open>
  \<^verbatim>\<open>COLLATE NOCASE\<close> is SQLite's: two names are compared byte by byte after the 26 ASCII
  upper-case letters are folded to lower case. Bytes outside ASCII are compared as they
  are, so the collation knows no case for other letters.
\<close>

definition nocaseFold :: "string \<Rightarrow> string" where
  "nocaseFold s = map asciiLower s"

definition nocaseEq :: "string \<Rightarrow> string \<Rightarrow> bool" where
  "nocaseEq a b = (nocaseFold a = nocaseFold b)"

definition newRowId :: "database \<Rightarrow> int" where
  "newRowId db = fold max (map row_id (item_history db)) (history_seq db) + 1"

text \<open>
  \<^verbatim>\<open>INSERT ... ON CONFLICT(name COLLATE NOCASE) DO UPDATE SET ...\<close>: the row in conflict
  with the new name is updated, and a row is inserted when there is none. The statement
  draws a row id from the \<^verbatim>\<open>AUTOINCREMENT\<close> counter before the conflict is seen, so the
  counter advances in both cases. \<open>now\<close> is the value of \<^verbatim>\<open>strftime('%s', 'now')\<close>.
\<close>

definition upsertHistory :: "string \<Rightarrow> int \<Rightarrow> int \<Rightarrow> database \<Rightarrow> database" where
  "upsertHistory name sectionID now db =
     (if list_ex (\<lambda>h. nocaseEq (row_name h) name) (item_history db)
      then db\<lparr>item_history :=
                map (\<lambda>h. if nocaseEq (row_name h) name
                          then h\<lparr>last_section_id := Some sectionID,
                                 usage_count := usage_count h + 1,
                                 last_used_at := now\<rparr>
                          else h)
                    (item_history db),
              history_seq := newRowId db\<rparr>
      else db\<lparr>item_history :=
                item_history db @
                  [\<lparr>row_id = newRowId db, row_name = name, last_section_id = Some sectionID,
                    usage_count = 1, last_used_at = now\<rparr>],
              history_seq := newRowId db\<rparr>)"

definition SaveItemHistory :: "string \<Rightarrow> int \<Rightarrow> int \<Rightarrow> database \<Rightarrow> error option \<times> database" where
  "SaveItemHistory name sectionID now db =
     (if failing db then (Some StorageError, db)
      else (None, upsertHistory name sectionID now db))"

subsection \<open>GetItemSuggestions and GetAllItemSuggestions\<close>

text \<open>The loop over \<^verbatim>\<open>rows.Next()\<close>: a row is kept, with its boosted score, when \<^verbatim>\<open>score > 0\<close>.\<close>

fun scoreRows ::
  "caseTable \<Rightarrow> ItemSuggestion list \<Rightarrow> string \<Rightarrow> (ItemSuggestion \<times> int) list" where
  "scoreRows tbl [] query = []"
| "scoreRows tbl (s # rows) query =
     (let score = scoreSuggestion tbl (Name s) query
      in if score > 0 then (s, score + quo (UsageCount s) 10) # scoreRows tbl rows query
         else scoreRows tbl rows query)"

text \<open>The comparison given to \<^verbatim>\<open>sort.Slice\<close>.\<close>

definition scoredLess :: "ItemSuggestion \<times> int \<Rightarrow> ItemSuggestion \<times> int \<Rightarrow> bool" where
  "scoredLess a b =
     (if snd a \<noteq> snd b then snd a > snd b else UsageCount (fst a) > UsageCount (fst b))"

definition GetItemSuggestions ::
  "caseTable \<Rightarrow> database \<Rightarrow> string \<Rightarrow> int \<Rightarrow> error + ItemSuggestion list" where
  "GetItemSuggestions tbl db query limit0 =
     (let limit = (if limit0 \<le> 0 then 10 else limit0)
      in case selectHistory db 200 of
           Inl err \<Rightarrow> Inl err
         | Inr rows \<Rightarrow>
             Inr (map fst (take (nat limit) (sortSlice scoredLess (scoreRows tbl rows query)))))"

definition GetAllItemSuggestions :: "database \<Rightarrow> int \<Rightarrow> error + ItemSuggestion list" where
  "GetAllItemSuggestions db limit0 =
     (let limit = (if limit0 \<le> 0 then 100 else limit0) in selectHistory db (nat limit))"

subsection \<open>DeleteItemHistory and DeleteItemHistoryBatch\<close>

definition DeleteItemHistory :: "int \<Rightarrow> database \<Rightarrow> error option \<times> database" where
  "DeleteItemHistory i db =
     (if failing db then (Some StorageError, db)
      else
        (let rows = length (filter (\<lambda>h. row_id h = i) (item_history db));
             db' = db\<lparr>item_history := filter (\<lambda>h. row_id h \<noteq> i) (item_history db)\<rparr>
         in if rows = 0 then (Some NotFound, db') else (None, db')))"

definition DeleteItemHistoryBatch :: "int list \<Rightarrow> database \<Rightarrow> (error + int) \<times> database" where
  "DeleteItemHistoryBatch ids db =
     (if length ids = 0 then (Inr 0, db)
      else if failing db then (Inl StorageError, db)
      else
        (Inr (int (length (filter (\<lambda>h. row_id h \<in> set ids) (item_history db)))),
         db\<lparr>item_history := filter (\<lambda>h. row_id h \<notin> set ids) (item_history db)\<rparr>))"

section \<open>What the claims speak of\<close>

text \<open>
  The distance of two strings without regard to case, on their bytes: the edit distance
  of the lower-cased strings. It is what \<open>levenshteinDistance\<close> is shown to compute.
\<close>

definition foldedDistance :: "caseTable \<Rightarrow> string \<Rightarrow> string \<Rightarrow> nat" where
  "foldedDistance tbl a b = editDistance (ToLower tbl a) (ToLower tbl b)"

text \<open>The characters (code points) of a string.\<close>

definition runes :: "string \<Rightarrow> rune list" where
  "runes s = map fst (rangeString s)"

text \<open>
  The candidates of a query are the 200 rows the store returns first; a candidate matches
  when its base score is positive, and its final score adds the boost.
\<close>

definition candidates :: "database \<Rightarrow> ItemSuggestion list" where
  "candidates db = map (toSuggestion db) (historyWindow db 200)"

definition matching :: "caseTable \<Rightarrow> string \<Rightarrow> ItemSuggestion \<Rightarrow> bool" where
  "matching tbl query s = (scoreSuggestion tbl (Name s) query > 0)"

definition finalScore :: "caseTable \<Rightarrow> string \<Rightarrow> ItemSuggestion \<Rightarrow> int" where
  "finalScore tbl query s = scoreSuggestion tbl (Name s) query + quo (UsageCount s) 10"

text \<open>The matching candidates in the order \<^verbatim>\<open>sort.Slice\<close> leaves them in.\<close>

definition ranking :: "caseTable \<Rightarrow> database \<Rightarrow> string \<Rightarrow> ItemSuggestion list" where
  "ranking tbl db query = map fst (sortSlice scoredLess (scoreRows tbl (candidates db) query))"

text \<open>The order of the result: score descending, then usage count descending.\<close>

definition rankedAbove ::
  "caseTable \<Rightarrow> string \<Rightarrow> ItemSuggestion \<Rightarrow> ItemSuggestion \<Rightarrow> bool" where
  "rankedAbove tbl query a b =
     (finalScore tbl query a > finalScore tbl query b \<or>
      (finalScore tbl query a = finalScore tbl query b \<and> UsageCount a \<ge> UsageCount b))"

text \<open>The order of the store: usage count descending, then last use descending.\<close>

definition popularFirst :: "history_row \<Rightarrow> history_row \<Rightarrow> bool" where
  "popularFirst a b =
     (usage_count a > usage_count b \<or>
      (usage_count a = usage_count b \<and> last_used_at a \<ge> last_used_at b))"

text \<open>The rows of the store that hold a name, compared as the unique index compares.\<close>

definition recordsFor :: "string \<Rightarrow> database \<Rightarrow> history_row list" where
  "recordsFor name db = filter (\<lambda>h. nocaseEq (row_name h) name) (item_history db)"

text \<open>The store after \<open>SaveItemHistory\<close> has run.\<close>

definition recordUse :: "string \<Rightarrow> int \<Rightarrow> int \<Rightarrow> database \<Rightarrow> database" where
  "recordUse name sectionID now db = snd (SaveItemHistory name sectionID now db)"


definition usagePositive :: "database \<Rightarrow> bool" where
  "usagePositive db = list_all (\<lambda>h. 1 \<le> usage_count h) (item_history db)"

section \<open>Examples\<close>

text \<open>
  The rows of the Unicode case tables for the Latin-1 letters U+00C0..U+00DE and for
  Latin Extended-A, U+0100..U+017E, where upper and lower case alternate; every other
  code point is left as it is. It serves where a theorem is run on a concrete input.
\<close>

definition latinTable :: caseTable where
  "latinTable r =
     (if (0xC0 \<le> r \<and> r \<le> 0xD6) \<or> (0xD8 \<le> r \<and> r \<le> 0xDE) then r + 32
      else if (0x100 \<le> r \<and> r \<le> 0x12F) \<or> (0x132 \<le> r \<and> r \<le> 0x137) \<or>
              (0x14A \<le> r \<and> r \<le> 0x177)
        then (if even r then r + 1 else r)
      else if r = 0x130 then 0x69
      else if (0x139 \<le> r \<and> r \<le> 0x148) \<or> (0x179 \<le> r \<and> r \<le> 0x17E)
        then (if odd r then r + 1 else r)
      else if r = 0x178 then 0xFF
      else r)"

text \<open>
  Names in UTF-8. \<open>E_acute\<close> is U+00C9 and \<open>e_acute\<close> U+00E9; \<open>Z_dot\<close> is U+017B and
  \<open>z_dot\<close> U+017C; \<open>o_acute\<close> is U+00F3; \<open>nbsp\<close> is the no-break space U+00A0.
\<close>

definition E_acute :: string where "E_acute = [CHR 0xC3, CHR 0x89]"
definition e_acute :: string where "e_acute = [CHR 0xC3, CHR 0xA9]"
definition Z_dot :: string where "Z_dot = [CHR 0xC5, CHR 0xBB]"

text \<open>
  \<open>shop\<close> holds the four names of the specification's ranking example and one more;
  the other stores hold the rows of one test each.
\<close>

definition shop :: database where
  "shop = \<lparr>item_history =
      [\<lparr>row_id = 1, row_name = ''Silk'', last_section_id = Some 1, usage_count = 3, last_used_at = 100\<rparr>,
       \<lparr>row_id = 2, row_name = ''Almond milk'', last_section_id = Some 2, usage_count = 2, last_used_at = 200\<rparr>,
       \<lparr>row_id = 3, row_name = ''Milk'', last_section_id = None, usage_count = 1, last_used_at = 300\<rparr>,
       \<lparr>row_id = 4, row_name = ''Bread'', last_section_id = Some 9, usage_count = 40, last_used_at = 50\<rparr>,
       \<lparr>row_id = 5, row_name = ''Milk chocolate'', last_section_id = Some 1, usage_count = 1, last_used_at = 400\<rparr>],
     sections = [(1, ''Dairy''), (2, ''Drinks'')], history_seq = 5, failing = False\<rparr>"

definition typoShop :: database where
  "typoShop = \<lparr>item_history =
      [\<lparr>row_id = 1, row_name = ''abcdevwxyz'', last_section_id = Some 1, usage_count = 50, last_used_at = 100\<rparr>],
     sections = [(1, ''Dairy'')], history_seq = 1, failing = False\<rparr>"

definition longTypoShop :: database where
  "longTypoShop = \<lparr>item_history =
      [\<lparr>row_id = 1, row_name = ''abcdefuvwxyz'', last_section_id = Some 1, usage_count = 7, last_used_at = 100\<rparr>],
     sections = [(1, ''Dairy'')], history_seq = 1, failing = False\<rparr>"

definition fuzzyShop :: database where
  "fuzzyShop = \<lparr>item_history =
      [\<lparr>row_id = 1, row_name = ''Silk'', last_section_id = Some 1, usage_count = 1, last_used_at = 100\<rparr>,
       \<lparr>row_id = 2, row_name = ''Sill'', last_section_id = Some 1, usage_count = 250, last_used_at = 90\<rparr>,
       \<lparr>row_id = 3, row_name = ''Bread'', last_section_id = None, usage_count = 40, last_used_at = 80\<rparr>],
     sections = [(1, ''Dairy'')], history_seq = 3, failing = False\<rparr>"


definition boostShop :: database where
  "boostShop = \<lparr>item_history =
      [\<lparr>row_id = 1, row_name = ''milk'', last_section_id = Some 1, usage_count = 1, last_used_at = 100\<rparr>,
       \<lparr>row_id = 2, row_name = ''Milk chocolate'', last_section_id = Some 1, usage_count = 5011, last_used_at = 90\<rparr>],
     sections = [(1, ''Dairy'')], history_seq = 2, failing = False\<rparr>"

section \<open>Edit distance: the recursion is the least number of operations\<close>

lemma editDistance_Nil2 [simp]: "editDistance xs [] = length xs"
  by (cases xs) simp_all

lemma editDistance_ins: "editDistance a (x # b) \<le> editDistance a b + 1"
  by (cases a) simp_all

lemma editDistance_del_left: "editDistance (y # a) b \<le> editDistance a b + 1"
  by (cases b) simp_all

lemma editDistance_del: "editDistance a b \<le> editDistance a (x # b) + 1"
proof (induction a)
  case Nil
  show ?case by simp
next
  case (Cons y a)
  have 1: "editDistance (y # a) b \<le> editDistance a b + 1" by (rule editDistance_del_left)
  have 2: "editDistance (y # a) (x # b) =
     min (editDistance a (x # b) + 1)
         (min (editDistance (y # a) b + 1) (editDistance a b + (if y = x then 0 else 1)))"
    by simp
  show ?case unfolding 2 using Cons 1 by linarith
qed

lemma editDistance_sub: "editDistance a (d # b) \<le> editDistance a (c # b) + 1"
proof (induction a)
  case Nil
  show ?case by simp
next
  case (Cons y a)
  have 1: "editDistance (y # a) (d # b) =
     min (editDistance a (d # b) + 1)
         (min (editDistance (y # a) b + 1) (editDistance a b + (if y = d then 0 else 1)))"
    by simp
  have 2: "editDistance (y # a) (c # b) =
     min (editDistance a (c # b) + 1)
         (min (editDistance (y # a) b + 1) (editDistance a b + (if y = c then 0 else 1)))"
    by simp
  show ?case unfolding 1 2 using Cons by (cases "y = d"; cases "y = c"; simp; linarith)
qed

lemma editStep_distance: "editStep b c \<Longrightarrow> editDistance a c \<le> editDistance a b + 1"
proof (induction b c arbitrary: a rule: editStep.induct)
  case (ins xs c)
  show ?case by (rule editDistance_ins)
next
  case (del c xs)
  show ?case by (rule editDistance_del)
next
  case (sub c xs d)
  show ?case by (rule editDistance_sub)
next
  case (skip xs ys c)
  show ?case
  proof (induction a)
    case Nil
    show ?case using skip.IH [of "[]"] by simp
  next
    case (Cons y a)
    have 1: "editDistance (y # a) (c # ys) =
       min (editDistance a (c # ys) + 1)
           (min (editDistance (y # a) ys + 1) (editDistance a ys + (if y = c then 0 else 1)))"
      by simp
    have 2: "editDistance (y # a) (c # xs) =
       min (editDistance a (c # xs) + 1)
           (min (editDistance (y # a) xs + 1) (editDistance a xs + (if y = c then 0 else 1)))"
      by simp
    show ?case unfolding 1 2 using Cons skip.IH [of "y # a"] skip.IH [of a] by linarith
  qed
qed

lemma editDistance_same [simp]: "editDistance xs xs = 0"
  by (induction xs) simp_all

lemma editDistance_triangle_step:
  "editSteps n b c \<Longrightarrow> editDistance a c \<le> editDistance a b + n"
proof (induction n b c rule: editSteps.induct)
  case (done0 xs)
  show ?case by simp
next
  case (more xs ys n zs)
  show ?case using more.IH editStep_distance [OF more.hyps(1), of a] by simp
qed

lemma editSteps_lower: "editSteps n a b \<Longrightarrow> editDistance a b \<le> n"
  using editDistance_triangle_step [of n a b a] by simp

lemma editSteps_skip: "editSteps n xs ys \<Longrightarrow> editSteps n (c # xs) (c # ys)"
proof (induction n xs ys rule: editSteps.induct)
  case (done0 xs)
  show ?case by (rule editSteps.done0)
next
  case (more xs ys n zs)
  show ?case using editStep.skip [OF more.hyps(1), of c] more.IH by (rule editSteps.more)
qed

lemma editSteps_from_Nil: "editSteps (length ys) [] ys"
proof (induction ys)
  case Nil
  show ?case by (simp add: done0)
next
  case (Cons y ys)
  have "editStep [] [y]" by (rule editStep.ins)
  moreover have "editSteps (length ys) [y] (y # ys)" using Cons by (simp add: editSteps_skip)
  ultimately show ?case by (simp add: editSteps.more)
qed

lemma editSteps_to_Nil: "editSteps (length xs) xs []"
proof (induction xs)
  case Nil
  show ?case by (simp add: done0)
next
  case (Cons x xs)
  have "editStep (x # xs) xs" by (rule editStep.del)
  then show ?case using Cons by (simp add: editSteps.more)
qed

lemma editSteps_reach: "editSteps (editDistance a b) a b"
proof (induction a b rule: editDistance.induct)
  case (1 ys)
  show ?case by (simp add: editSteps_from_Nil)
next
  case (2 v va)
  show ?case using editSteps_to_Nil [of "v # va"] by simp
next
  case (3 x xs y ys)
  have a: "editSteps (editDistance xs (y # ys) + 1) (x # xs) (y # ys)"
    using editStep.del [of x xs] "3.IH"(1) by (simp add: editSteps.more)
  have b: "editSteps (editDistance (x # xs) ys + 1) (x # xs) (y # ys)"
    using editStep.ins [of "x # xs" y] editSteps_skip [OF "3.IH"(2), of y]
    by (simp add: editSteps.more)
  have c: "editSteps (editDistance xs ys + (if x = y then 0 else 1)) (x # xs) (y # ys)"
  proof (cases "x = y")
    case True
    then show ?thesis using editSteps_skip [OF "3.IH"(3), of y] by simp
  next
    case False
    then show ?thesis
      using editStep.sub [of x xs y] editSteps_skip [OF "3.IH"(3), of y]
      by (simp add: editSteps.more)
  qed
  show ?case using a b c by (simp add: min_def)
qed

lemma editStep_append: "editStep xs ys \<Longrightarrow> editStep (xs @ zs) (ys @ zs)"
  by (induction xs ys rule: editStep.induct) (auto intro: editStep.intros)

lemma editStep_ins_at: "editStep (us @ vs) (us @ c # vs)"
  by (induction us) (auto intro: editStep.intros)

lemma editStep_del_at: "editStep (us @ c # vs) (us @ vs)"
  by (induction us) (auto intro: editStep.intros)

lemma editStep_sub_at: "editStep (us @ c # vs) (us @ d # vs)"
  by (induction us) (auto intro: editStep.intros)

lemma editStep_rev: "editStep xs ys \<Longrightarrow> editStep (rev xs) (rev ys)"
proof (induction xs ys rule: editStep.induct)
  case (ins xs c)
  show ?case using editStep_ins_at [of "rev xs" "[]" c] by simp
next
  case (del c xs)
  show ?case using editStep_del_at [of "rev xs" c "[]"] by simp
next
  case (sub c xs d)
  show ?case using editStep_sub_at [of "rev xs" c "[]" d] by simp
next
  case (skip xs ys c)
  show ?case using editStep_append [OF skip.IH, of "[c]"] by simp
qed

lemma editSteps_rev: "editSteps n xs ys \<Longrightarrow> editSteps n (rev xs) (rev ys)"
proof (induction n xs ys rule: editSteps.induct)
  case (done0 xs)
  show ?case by (rule editSteps.done0)
next
  case (more xs ys n zs)
  show ?case using editStep_rev [OF more.hyps(1)] more.IH by (rule editSteps.more)
qed

lemma editDistance_rev: "editDistance (rev a) (rev b) = editDistance a b"
proof (rule antisym)
  show "editDistance (rev a) (rev b) \<le> editDistance a b"
    using editSteps_lower [OF editSteps_rev [OF editSteps_reach [of a b]]] .
  show "editDistance a b \<le> editDistance (rev a) (rev b)"
    using editSteps_lower [OF editSteps_rev [OF editSteps_reach [of "rev a" "rev b"]]] by simp
qed

lemma applyEdit_step: "applyEdit e b = Some c \<Longrightarrow> editStep b c"
proof (cases e)
  case (Insert i x)
  assume "applyEdit e b = Some c"
  with Insert have c: "c = take i b @ x # drop i b" by (auto split: if_splits)
  have "editStep (take i b @ drop i b) (take i b @ x # drop i b)" by (rule editStep_ins_at)
  then show ?thesis unfolding c by simp
next
  case (Delete i)
  assume "applyEdit e b = Some c"
  with Delete have i: "i < length b" and c: "c = take i b @ drop (Suc i) b"
    by (auto split: if_splits)
  have b: "b = take i b @ b ! i # drop (Suc i) b" using i by (rule id_take_nth_drop)
  have "editStep (take i b @ b ! i # drop (Suc i) b) (take i b @ drop (Suc i) b)"
    by (rule editStep_del_at)
  then show ?thesis using b c by simp
next
  case (Substitute i x)
  assume "applyEdit e b = Some c"
  with Substitute have i: "i < length b" and c: "c = b[i := x]" by (auto split: if_splits)
  have b: "b = take i b @ b ! i # drop (Suc i) b" using i by (rule id_take_nth_drop)
  have c': "c = take i b @ x # drop (Suc i) b" unfolding c using i by (rule upd_conv_take_nth_drop)
  have "editStep (take i b @ b ! i # drop (Suc i) b) (take i b @ x # drop (Suc i) b)"
    by (rule editStep_sub_at)
  then show ?thesis using b c' by simp
qed

lemma applyEdits_steps: "applyEdits es a = Some b \<Longrightarrow> editSteps (length es) a b"
proof (induction es arbitrary: a)
  case Nil
  then show ?case by (simp add: done0)
next
  case (Cons e es)
  then obtain a' where a': "applyEdit e a = Some a'" "applyEdits es a' = Some b"
    by (auto split: option.splits)
  show ?case using applyEdit_step [OF a'(1)] Cons.IH [OF a'(2)] by (simp add: editSteps.more)
qed

lemma applyEdit_shift: "applyEdit e xs = Some ys \<Longrightarrow> applyEdit (shiftEdit e) (c # xs) = Some (c # ys)"
  by (cases e) (auto split: if_splits)

lemma editStep_applyEdit: "editStep xs ys \<Longrightarrow> \<exists>e. applyEdit e xs = Some ys"
proof (induction xs ys rule: editStep.induct)
  case (ins xs c)
  have "applyEdit (Insert 0 c) xs = Some (c # xs)" by simp
  then show ?case by (rule exI)
next
  case (del c xs)
  have "applyEdit (Delete 0) (c # xs) = Some xs" by simp
  then show ?case by (rule exI)
next
  case (sub c xs d)
  have "applyEdit (Substitute 0 d) (c # xs) = Some (d # xs)" by simp
  then show ?case by (rule exI)
next
  case (skip xs ys c)
  from skip.IH obtain e where "applyEdit e xs = Some ys" by (rule exE)
  then have "applyEdit (shiftEdit e) (c # xs) = Some (c # ys)" by (rule applyEdit_shift)
  then show ?case by (rule exI)
qed

lemma editSteps_applyEdits:
  "editSteps n a b \<Longrightarrow> \<exists>es. length es = n \<and> applyEdits es a = Some b"
proof (induction n a b rule: editSteps.induct)
  case (done0 xs)
  have "length ([] :: 'a edit list) = 0 \<and> applyEdits [] xs = Some xs" by simp
  then show ?case by (rule exI)
next
  case (more xs ys n zs)
  from more.IH obtain es where es: "length es = n \<and> applyEdits es ys = Some zs" by (rule exE)
  from editStep_applyEdit [OF more.hyps(1)] obtain e where e: "applyEdit e xs = Some ys"
    by (rule exE)
  have "length (e # es) = Suc n \<and> applyEdits (e # es) xs = Some zs" using es e by simp
  then show ?case by (rule exI)
qed


section \<open>The matrix loops compute the edit distance\<close>

lemma rev_take_Suc: "i < length s \<Longrightarrow> rev (take (Suc i) s) = s ! i # rev (take i s)"
  by (simp add: take_Suc_conv_app_nth)

lemma prefixDistance_0_left: "j \<le> length s2 \<Longrightarrow> prefixDistance s1 s2 0 j = int j"
  by (simp add: prefixDistance_def)

lemma prefixDistance_0_right: "i \<le> length s1 \<Longrightarrow> prefixDistance s1 s2 i 0 = int i"
  by (simp add: prefixDistance_def)

lemma prefixDistance_Suc:
  assumes "i < length s1" "j < length s2"
  shows "prefixDistance s1 s2 (Suc i) (Suc j) =
     min3 (prefixDistance s1 s2 i (Suc j) + 1) (prefixDistance s1 s2 (Suc i) j + 1)
          (prefixDistance s1 s2 i j + (if s1 ! i = s2 ! j then 0 else 1))"
proof -
  have 1: "rev (take (Suc i) s1) = s1 ! i # rev (take i s1)" using assms(1) by (rule rev_take_Suc)
  have 2: "rev (take (Suc j) s2) = s2 ! j # rev (take j s2)" using assms(2) by (rule rev_take_Suc)
  show ?thesis
    unfolding prefixDistance_def min3_def 1 2 by (simp add: min_def)
qed

lemma prefixDistance_full:
  "prefixDistance s1 s2 (length s1) (length s2) = int (editDistance s1 s2)"
  by (simp add: prefixDistance_def editDistance_rev)

lemma length_setCell [simp]: "length (setCell m i j v) = length m"
  by (simp add: setCell_def)

lemma nth_setCell:
  "i < length m \<Longrightarrow> setCell m i j v ! r = (if r = i then (m ! i)[j := v] else m ! r)"
  by (simp add: setCell_def)

lemma filled_next_row:
  assumes "filled s1 s2 m i (length s2)" "i < length s1"
  shows "filled s1 s2 m (Suc i) 0"
proof -
  have "\<forall>r < Suc i. \<forall>c \<le> length s2. m ! r ! c = prefixDistance s1 s2 r c"
    using assms(1) by (auto simp: filled_def less_Suc_eq)
  moreover have "m ! Suc i ! 0 = prefixDistance s1 s2 (Suc i) 0"
    using assms by (simp add: filled_def prefixDistance_0_right)
  ultimately show ?thesis using assms(1) by (simp add: filled_def)
qed

lemma filled_cellStep:
  assumes f: "filled s1 s2 m (Suc i) j" and i: "i < length s1" and j: "j < length s2"
  shows "filled s1 s2 (cellStep s1 s2 (Suc i) (Suc j) m) (Suc i) (Suc j)"
proof -
  let ?v = "min3 (m ! i ! Suc j + 1) (m ! Suc i ! j + 1)
                (m ! i ! j + (if s1 ! i = s2 ! j then 0 else 1))"
  let ?m = "setCell m (Suc i) (Suc j) ?v"
  have m': "cellStep s1 s2 (Suc i) (Suc j) m = ?m" by (simp add: cellStep_def)
  have len: "length m = length s1 + 1" using f by (simp add: filled_def)
  have rows: "\<And>r. r \<le> length s1 \<Longrightarrow> length (m ! r) = length s2 + 1"
    using f by (simp add: filled_def)
  have col0: "\<And>r. r \<le> length s1 \<Longrightarrow> m ! r ! 0 = int r" using f by (simp add: filled_def)
  have above: "\<And>r c. r < Suc i \<Longrightarrow> c \<le> length s2 \<Longrightarrow> m ! r ! c = prefixDistance s1 s2 r c"
    using f by (simp add: filled_def)
  have left: "\<And>c. c \<le> j \<Longrightarrow> m ! Suc i ! c = prefixDistance s1 s2 (Suc i) c"
    using f by (simp add: filled_def)
  have si: "Suc i < length m" using len i by simp
  have nth: "\<And>r. ?m ! r = (if r = Suc i then (m ! Suc i)[Suc j := ?v] else m ! r)"
    using si by (simp add: nth_setCell)
  have v: "?v = prefixDistance s1 s2 (Suc i) (Suc j)"
    using above [of i "Suc j"] above [of i j] left [of j] i j
    by (simp add: prefixDistance_Suc)
  have 1: "length ?m = length s1 + 1" using len by simp
  have 2: "\<forall>r \<le> length s1. length (?m ! r) = length s2 + 1"
    using rows by (simp add: nth)
  have 3: "\<forall>r \<le> length s1. ?m ! r ! 0 = int r"
    using col0 by (simp add: nth)
  have 4: "\<forall>r < Suc i. \<forall>c \<le> length s2. ?m ! r ! c = prefixDistance s1 s2 r c"
    using above by (simp add: nth)
  have sj: "Suc j < length (m ! Suc i)" using rows [of "Suc i"] i j by simp
  have 5: "\<forall>c \<le> Suc j. ?m ! Suc i ! c = prefixDistance s1 s2 (Suc i) c"
  proof (intro allI impI)
    fix c assume c: "c \<le> Suc j"
    show "?m ! Suc i ! c = prefixDistance s1 s2 (Suc i) c"
    proof (cases "c = Suc j")
      case True
      have "?m ! Suc i ! Suc j = ?v" using sj by (simp add: nth)
      then show ?thesis using True v by simp
    next
      case False
      then have "c \<le> j" using c by simp
      then show ?thesis using left [of c] False by (simp add: nth)
    qed
  qed
  show ?thesis unfolding m' filled_def using 1 2 3 4 5 by blast
qed

lemma filled_row_loop:
  assumes "filled s1 s2 m (Suc i) 0" "i < length s1"
  shows "k \<le> length s2 \<Longrightarrow> filled s1 s2 (fold (cellStep s1 s2 (Suc i)) [1..<Suc k] m) (Suc i) k"
proof (induction k)
  case 0
  show ?case using assms(1) by simp
next
  case (Suc k)
  have "filled s1 s2 (fold (cellStep s1 s2 (Suc i)) [1..<Suc k] m) (Suc i) k"
    using Suc by simp
  then have "filled s1 s2
      (cellStep s1 s2 (Suc i) (Suc k) (fold (cellStep s1 s2 (Suc i)) [1..<Suc k] m)) (Suc i) (Suc k)"
    using assms(2) Suc.prems by (intro filled_cellStep) simp_all
  then show ?case by simp
qed

lemma filled_fillRow:
  assumes "filled s1 s2 m i (length s2)" "i < length s1"
  shows "filled s1 s2 (fillRow s1 s2 (Suc i) m) (Suc i) (length s2)"
  unfolding fillRow_def
  using filled_row_loop [OF filled_next_row [OF assms] assms(2), of "length s2"] by simp

lemma filled_matrix_loop:
  assumes "filled s1 s2 m 0 (length s2)"
  shows "k \<le> length s1 \<Longrightarrow> filled s1 s2 (fold (fillRow s1 s2) [1..<Suc k] m) k (length s2)"
proof (induction k)
  case 0
  show ?case using assms by simp
next
  case (Suc k)
  have "filled s1 s2 (fold (fillRow s1 s2) [1..<Suc k] m) k (length s2)" using Suc by simp
  then have "filled s1 s2 (fillRow s1 s2 (Suc k) (fold (fillRow s1 s2) [1..<Suc k] m))
      (Suc k) (length s2)"
    using Suc.prems by (intro filled_fillRow) simp_all
  then show ?case by simp
qed


lemma init_row_loop:
  assumes "0 < length m0"
  shows "k \<le> length (m0 ! 0) \<Longrightarrow>
     length (fold (\<lambda>j m. setCell m 0 j (int j)) [0..<k] m0) = length m0 \<and>
     (\<forall>r. 0 < r \<longrightarrow> fold (\<lambda>j m. setCell m 0 j (int j)) [0..<k] m0 ! r = m0 ! r) \<and>
     length (fold (\<lambda>j m. setCell m 0 j (int j)) [0..<k] m0 ! 0) = length (m0 ! 0) \<and>
     (\<forall>j < k. fold (\<lambda>j m. setCell m 0 j (int j)) [0..<k] m0 ! 0 ! j = int j)"
proof (induction k)
  case 0
  show ?case by simp
next
  case (Suc k)
  let ?mat = "fold (\<lambda>j m. setCell m 0 j (int j)) [0..<k] m0"
  have ih: "length ?mat = length m0" "\<forall>r. 0 < r \<longrightarrow> ?mat ! r = m0 ! r"
    "length (?mat ! 0) = length (m0 ! 0)" "\<forall>j < k. ?mat ! 0 ! j = int j"
    using Suc by simp_all
  have step: "fold (\<lambda>j m. setCell m 0 j (int j)) [0..<Suc k] m0 = setCell ?mat 0 k (int k)"
    by simp
  have pos: "0 < length ?mat" using ih(1) assms by simp
  have nth: "\<And>r. setCell ?mat 0 k (int k) ! r = (if r = 0 then (?mat ! 0)[k := int k] else ?mat ! r)"
    using pos by (simp add: nth_setCell)
  have k: "k < length (?mat ! 0)" using ih(3) Suc.prems by simp
  have "\<forall>j < Suc k. setCell ?mat 0 k (int k) ! 0 ! j = int j"
    using ih(4) k by (simp add: nth nth_list_update less_Suc_eq)
  then show ?case unfolding step using ih by (simp add: nth)
qed

lemma filled_initMatrix:
  "filled s1 s2 (initMatrix (length s1) (length s2)) 0 (length s2)"
proof -
  let ?rows = "length s1" and ?cols = "length s2"
  let ?start = "map (\<lambda>i. (replicate (?cols + 1) 0)[0 := int i]) [0..<?rows + 1]"
  let ?mat = "fold (\<lambda>j m. setCell m 0 j (int j)) [0..<?cols + 1] ?start"
  have m: "initMatrix ?rows ?cols = ?mat" by (simp add: initMatrix_def)
  have m0: "\<And>r. r \<le> ?rows \<Longrightarrow> ?start ! r = (replicate (?cols + 1) 0)[0 := int r]"
  proof -
    fix r assume "r \<le> ?rows"
    then have "r < length [0..<?rows + 1]" by simp
    then have "?start ! r = (replicate (?cols + 1) 0)[0 := int ([0..<?rows + 1] ! r)]"
      by (rule nth_map)
    moreover have "[0..<?rows + 1] ! r = r" using \<open>r \<le> ?rows\<close> by (simp del: upt_Suc)
    ultimately show "?start ! r = (replicate (?cols + 1) 0)[0 := int r]" by simp
  qed
  have pos: "0 < length ?start" by simp
  have len0: "length (?start ! 0) = ?cols + 1" using m0 [of 0] by simp
  have loop: "length ?mat = length ?start" "\<forall>r. 0 < r \<longrightarrow> ?mat ! r = ?start ! r"
    "length (?mat ! 0) = length (?start ! 0)" "\<forall>j < ?cols + 1. ?mat ! 0 ! j = int j"
    using init_row_loop [OF pos, of "?cols + 1"] len0 by simp_all
  have 1: "length ?mat = ?rows + 1" using loop(1) by simp
  have 2: "\<forall>r \<le> ?rows. length (?mat ! r) = ?cols + 1"
  proof (intro allI impI)
    fix r assume r: "r \<le> ?rows"
    show "length (?mat ! r) = ?cols + 1"
    proof (cases "r = 0")
      case True
      then show ?thesis using loop(3) len0 by simp
    next
      case False
      then have "?mat ! r = ?start ! r" using loop(2) by simp
      then show ?thesis using m0 [OF r] by simp
    qed
  qed
  have 3: "\<forall>r \<le> ?rows. ?mat ! r ! 0 = int r"
  proof (intro allI impI)
    fix r assume r: "r \<le> ?rows"
    show "?mat ! r ! 0 = int r"
    proof (cases "r = 0")
      case True
      then show ?thesis using loop(4) by simp
    next
      case False
      then have "?mat ! r = ?start ! r" using loop(2) by simp
      then show ?thesis using m0 [OF r] by simp
    qed
  qed
  have 5: "\<forall>c \<le> ?cols. ?mat ! 0 ! c = prefixDistance s1 s2 0 c"
    using loop(4) by (simp add: prefixDistance_0_left)
  show ?thesis unfolding m filled_def using 1 2 3 5 by simp
qed

lemma fillMatrix_result:
  "fillMatrix s1 s2 (initMatrix (length s1) (length s2)) ! length s1 ! length s2 =
     int (editDistance s1 s2)"
proof -
  have "filled s1 s2 (fillMatrix s1 s2 (initMatrix (length s1) (length s2)))
          (length s1) (length s2)"
    unfolding fillMatrix_def
    using filled_matrix_loop [OF filled_initMatrix, of "length s1" s1 s2] by simp
  then show ?thesis by (simp add: filled_def prefixDistance_full)
qed

lemma editDistance_Nil1: "editDistance [] ys = length ys"
  by simp

lemma levenshteinDistance_editDistance:
  "levenshteinDistance tbl a b = int (editDistance (ToLower tbl a) (ToLower tbl b))"
proof (cases "ToLower tbl a = [] \<or> ToLower tbl b = []")
  case True
  then show ?thesis by (auto simp: levenshteinDistance_def Let_def)
next
  case False
  then show ?thesis by (simp add: levenshteinDistance_def Let_def fillMatrix_result)
qed

lemma levenshteinDistance_foldedDistance:
  "levenshteinDistance tbl a b = int (foldedDistance tbl a b)"
  by (simp add: levenshteinDistance_editDistance foldedDistance_def)

subsection \<open>Bytes and characters\<close>

lemma byte_range: "0 \<le> byte c \<and> byte c < 256"
proof -
  have "(of_char c :: int) = int (of_char c)" by (rule of_nat_of_char [symmetric])
  moreover have "(of_char c :: nat) < 256" by (rule nat_of_char_less_256)
  ultimately show ?thesis unfolding byte_def by simp
qed

lemma byte_inj: "byte a = byte b \<Longrightarrow> a = b"
  by (simp add: byte_def)

lemma rangeString_ascii:
  "list_all (\<lambda>c. byte c < 0x80) s \<Longrightarrow> rangeString s = map (\<lambda>c. (byte c, [c])) s"
  by (induction s) (simp_all add: decodeAfter_def)

lemma runes_ascii: "list_all (\<lambda>c. byte c < 0x80) s \<Longrightarrow> runes s = map byte s"
  by (simp add: runes_def rangeString_ascii o_def)

lemma editDistance_map:
  assumes "\<And>x y. f x = f y \<Longrightarrow> x = y"
  shows "editDistance (map f a) (map f b) = editDistance a b"
proof (induction a b rule: editDistance.induct)
  case (1 ys)
  show ?case by simp
next
  case (2 v va)
  show ?case by simp
next
  case (3 x xs y ys)
  have "(f x = f y) = (x = y)" using assms by auto
  then show ?case using 3 by simp
qed

lemma editDistance_runes_ascii:
  assumes "list_all (\<lambda>c. byte c < 0x80) a" "list_all (\<lambda>c. byte c < 0x80) b"
  shows "editDistance (runes a) (runes b) = editDistance a b"
  unfolding runes_ascii [OF assms(1)] runes_ascii [OF assms(2)]
  by (rule editDistance_map) (rule byte_inj)





lemma decoding_examples:
  "runes [CHR 0xE2, CHR 0x82, CHR 0xAC, CHR 0xF0, CHR 0x9F, CHR 0x98, CHR 0x80] =
     [0x20AC, 0x1F600] \<and>
   EncodeRune 0x20AC = [CHR 0xE2, CHR 0x82, CHR 0xAC] \<and>
   EncodeRune 0x1F600 = [CHR 0xF0, CHR 0x9F, CHR 0x98, CHR 0x80] \<and>
   runes [CHR 0xC0, CHR 0x80] = [RuneError, RuneError] \<and>
   runes [CHR 0xED, CHR 0xA0, CHR 0x80] = [RuneError, RuneError, RuneError] \<and>
   runes [CHR 0xF4, CHR 0x90, CHR 0x80, CHR 0x80] =
     [RuneError, RuneError, RuneError, RuneError] \<and>
   runes [CHR 0xE2, CHR 0x82] = [RuneError, RuneError] \<and>
   EncodeRune 0xD800 = [CHR 0xEF, CHR 0xBF, CHR 0xBD]"
  by code_simp

text \<open>
  Claim C5, as the code has it. For all strings \<open>s1\<close> and \<open>s2\<close> and every case table,
  \<open>levenshteinDistance\<close> is the Levenshtein distance of the lower-cased strings counted in
  bytes: some list of insertions, deletions and substitutions of one byte turns
  lower-cased \<open>s1\<close> into lower-cased \<open>s2\<close> and has exactly that many operations, and no list
  that does so has fewer. When both lower-cased strings are ASCII text, where a byte is a
  character, it is the distance counted in characters.
\<close>

theorem levenshteinDistance_is_minimum:
  "(\<exists>es. applyEdits es (ToLower tbl s1) = Some (ToLower tbl s2) \<and>
         int (length es) = levenshteinDistance tbl s1 s2) \<and>
   (\<forall>es. applyEdits es (ToLower tbl s1) = Some (ToLower tbl s2) \<longrightarrow>
         levenshteinDistance tbl s1 s2 \<le> int (length es)) \<and>
   (list_all (\<lambda>c. byte c < 0x80) (ToLower tbl s1) \<and>
    list_all (\<lambda>c. byte c < 0x80) (ToLower tbl s2) \<longrightarrow>
      levenshteinDistance tbl s1 s2 =
        int (editDistance (runes (ToLower tbl s1)) (runes (ToLower tbl s2))))"
proof (intro conjI)
  have "editSteps (editDistance (ToLower tbl s1) (ToLower tbl s2)) (ToLower tbl s1) (ToLower tbl s2)"
    by (rule editSteps_reach)
  then have "\<exists>es. length es = editDistance (ToLower tbl s1) (ToLower tbl s2) \<and>
      applyEdits es (ToLower tbl s1) = Some (ToLower tbl s2)"
    by (rule editSteps_applyEdits)
  then obtain es where es: "length es = editDistance (ToLower tbl s1) (ToLower tbl s2) \<and>
      applyEdits es (ToLower tbl s1) = Some (ToLower tbl s2)"
    by (rule exE)
  have "applyEdits es (ToLower tbl s1) = Some (ToLower tbl s2) \<and>
      int (length es) = levenshteinDistance tbl s1 s2"
    using es by (simp add: levenshteinDistance_editDistance)
  then show "\<exists>es. applyEdits es (ToLower tbl s1) = Some (ToLower tbl s2) \<and>
      int (length es) = levenshteinDistance tbl s1 s2"
    by (rule exI)
next
  show "\<forall>es. applyEdits es (ToLower tbl s1) = Some (ToLower tbl s2) \<longrightarrow>
      levenshteinDistance tbl s1 s2 \<le> int (length es)"
  proof (intro allI impI)
    fix es assume "applyEdits es (ToLower tbl s1) = Some (ToLower tbl s2)"
    then have "editSteps (length es) (ToLower tbl s1) (ToLower tbl s2)" by (rule applyEdits_steps)
    then have "editDistance (ToLower tbl s1) (ToLower tbl s2) \<le> length es"
      by (rule editSteps_lower)
    then show "levenshteinDistance tbl s1 s2 \<le> int (length es)"
      by (simp add: levenshteinDistance_editDistance)
  qed
next
  show "list_all (\<lambda>c. byte c < 0x80) (ToLower tbl s1) \<and>
    list_all (\<lambda>c. byte c < 0x80) (ToLower tbl s2) \<longrightarrow>
      levenshteinDistance tbl s1 s2 =
        int (editDistance (runes (ToLower tbl s1)) (runes (ToLower tbl s2)))"
    by (simp add: levenshteinDistance_editDistance editDistance_runes_ascii)
qed

theorem levenshteinDistance_is_minimum_witness:
  "applyEdits [Substitute 0 CHR ''s'', Substitute 4 CHR ''i'', Insert 6 CHR ''g'']
     (ToLower latinTable ''Kitten'') = Some (ToLower latinTable ''Sitting'') \<and>
   levenshteinDistance latinTable ''Kitten'' ''Sitting'' \<le> 3 \<and>
   levenshteinDistance latinTable ''Kitten'' ''Sitting'' = 3 \<and>
   list_all (\<lambda>c. byte c < 0x80) (ToLower latinTable ''Kitten'') \<and>
   list_all (\<lambda>c. byte c < 0x80) (ToLower latinTable ''Sitting'') \<and>
   levenshteinDistance latinTable ''Kitten'' ''Sitting'' =
     int (editDistance (runes (ToLower latinTable ''Kitten'')) (runes (ToLower latinTable ''Sitting''))) \<and>
   levenshteinDistance latinTable (E_acute @ ''COLE'') (e_acute @ ''cole'') = 0 \<and>
   levenshteinDistance latinTable (Z_dot @ ''urek'') ''zurek'' = 2"
proof -
  let ?es = "[Substitute 0 CHR ''s'', Substitute 4 CHR ''i'', Insert 6 CHR ''g'']"
  have run: "applyEdits ?es (ToLower latinTable ''Kitten'') = Some (ToLower latinTable ''Sitting'')"
    by code_simp
  have "\<forall>es. applyEdits es (ToLower latinTable ''Kitten'') = Some (ToLower latinTable ''Sitting'') \<longrightarrow>
      levenshteinDistance latinTable ''Kitten'' ''Sitting'' \<le> int (length es)"
    using levenshteinDistance_is_minimum [where tbl = latinTable and ?s1.0 = "''Kitten''"
        and ?s2.0 = "''Sitting''", THEN conjunct2, THEN conjunct1] .
  then have "applyEdits ?es (ToLower latinTable ''Kitten'') = Some (ToLower latinTable ''Sitting'') \<longrightarrow>
      levenshteinDistance latinTable ''Kitten'' ''Sitting'' \<le> int (length ?es)"
    by (rule spec)
  then have "levenshteinDistance latinTable ''Kitten'' ''Sitting'' \<le> int (length ?es)"
    using run by (rule mp)
  then have le: "levenshteinDistance latinTable ''Kitten'' ''Sitting'' \<le> 3" by simp
  have eq: "levenshteinDistance latinTable ''Kitten'' ''Sitting'' = 3" by code_simp
  have fold: "levenshteinDistance latinTable (E_acute @ ''COLE'') (e_acute @ ''cole'') = 0"
    by code_simp
  have bytes: "levenshteinDistance latinTable (Z_dot @ ''urek'') ''zurek'' = 2" by code_simp
  have a1: "list_all (\<lambda>c. byte c < 0x80) (ToLower latinTable ''Kitten'')" by code_simp
  have a2: "list_all (\<lambda>c. byte c < 0x80) (ToLower latinTable ''Sitting'')" by code_simp
  have "list_all (\<lambda>c. byte c < 0x80) (ToLower latinTable ''Kitten'') \<and>
      list_all (\<lambda>c. byte c < 0x80) (ToLower latinTable ''Sitting'') \<longrightarrow>
      levenshteinDistance latinTable ''Kitten'' ''Sitting'' =
        int (editDistance (runes (ToLower latinTable ''Kitten''))
          (runes (ToLower latinTable ''Sitting'')))"
    using levenshteinDistance_is_minimum [where tbl = latinTable and ?s1.0 = "''Kitten''"
        and ?s2.0 = "''Sitting''", THEN conjunct2, THEN conjunct2] .
  then have chars: "levenshteinDistance latinTable ''Kitten'' ''Sitting'' =
      int (editDistance (runes (ToLower latinTable ''Kitten''))
        (runes (ToLower latinTable ''Sitting'')))"
    using a1 a2 by simp
  show ?thesis using run le eq a1 a2 chars fold bytes by (intro conjI)
qed

text \<open>
  Claim C5 as it was stated counts single characters. The strings \<open>e_acute\<close> and \<open>e\<close> are
  one character each, so one substitution turns the one into the other; lower-casing
  changes neither. The function counts the two bytes of \<open>e_acute\<close> and returns 2.
\<close>

theorem levenshteinDistance_characters_counterexample:
  "runes e_acute = [0xE9] \<and> runes ''e'' = [0x65] \<and>
   applyEdits [Substitute 0 0x65] (runes e_acute) = Some (runes ''e'') \<and>
   ToLower latinTable e_acute = e_acute \<and> ToLower latinTable ''e'' = ''e'' \<and>
   levenshteinDistance latinTable e_acute ''e'' = 2"
  by code_simp

section \<open>scoreSuggestion: the score by cases\<close>

lemma HasPrefix_prefix: "HasPrefix s p \<longleftrightarrow> prefix p s"
proof
  assume "HasPrefix s p"
  then have "take (length p) s = p" by (simp add: HasPrefix_def)
  then show "prefix p s" by (metis take_is_prefix)
next
  assume "prefix p s"
  then obtain t where "s = p @ t" by (auto simp: prefix_def)
  then show "HasPrefix s p" by (simp add: HasPrefix_def)
qed

lemma Contains_sublist: "Contains s sub \<longleftrightarrow> sublist sub s"
  by (induction s) (simp_all add: HasPrefix_prefix sublist_Cons_right)

lemma quo_half: "quo (int n) 2 = int (n div 2)"
  by (cases "n = 0") (simp_all add: quo_def signed_divide_int_def zdiv_int)

lemma wordLoop_find:
  "wordLoop tbl ws q (int m) =
     map_option (\<lambda>w. 80 - int (foldedDistance tbl w q) * 15)
       (find (\<lambda>w. foldedDistance tbl w q \<le> m) ws)"
  by (induction ws) (simp_all add: levenshteinDistance_foldedDistance Let_def)

subsection \<open>The fields of a string\<close>

lemma rangeString_bytes: "concat (map snd (rangeString s)) = s"
  by (induction s rule: rangeString.induct) simp_all

lemma rangeString_nonempty: "(r, bs) \<in> set (rangeString s) \<Longrightarrow> bs \<noteq> []"
  by (induction s rule: rangeString.induct) auto

lemma fieldsFrom_words:
  assumes "\<forall>(r, bs) \<in> set rest. bs \<noteq> []"
  shows "(\<forall>w \<in> set (fieldsFrom cur rest). w \<noteq> []) \<and>
     concat (fieldsFrom cur rest) =
       cur @ concat (map snd (filter (\<lambda>(r, bs). \<not> IsSpace r) rest))"
  using assms
proof (induction rest arbitrary: cur)
  case Nil
  then show ?case by simp
next
  case (Cons p rest)
  obtain r bs where p: "p = (r, bs)" by (cases p)
  have tl: "\<forall>(r, bs) \<in> set rest. bs \<noteq> []" and bs: "bs \<noteq> []" using Cons.prems p by auto
  show ?case
  proof (cases "IsSpace r")
    case True
    have "(\<forall>w \<in> set (fieldsFrom [] rest). w \<noteq> []) \<and>
       concat (fieldsFrom [] rest) =
         [] @ concat (map snd (filter (\<lambda>(r, bs). \<not> IsSpace r) rest))"
      using tl by (rule Cons.IH)
    then show ?thesis using True p by simp
  next
    case False
    have "(\<forall>w \<in> set (fieldsFrom (cur @ bs) rest). w \<noteq> []) \<and>
       concat (fieldsFrom (cur @ bs) rest) =
         (cur @ bs) @ concat (map snd (filter (\<lambda>(r, bs). \<not> IsSpace r) rest))"
      using tl by (rule Cons.IH)
    then show ?thesis using False p by simp
  qed
qed

lemma Fields_words:
  "(\<forall>w \<in> set (Fields s). w \<noteq> []) \<and>
   concat (Fields s) = concat (map snd (filter (\<lambda>(r, bs). \<not> IsSpace r) (rangeString s)))"
proof -
  have "\<forall>(r, bs) \<in> set (rangeString s). bs \<noteq> []" using rangeString_nonempty by auto
  then show ?thesis unfolding Fields_def using fieldsFrom_words [of "rangeString s" "[]"] by simp
qed

subsection \<open>The score\<close>

lemma scoreSuggestion_formula:
  "scoreSuggestion tbl name query =
     (let n = ToLower tbl name; q = ToLower tbl query; maxD = length query div 2
      in if n = q then 1000
         else if prefix q n then 500
         else if sublist q n then 200
         else if 3 \<le> length query \<and> foldedDistance tbl n q \<le> maxD
           then 100 - int (foldedDistance tbl n q) * 20
         else if 3 \<le> length query
           then (case find (\<lambda>w. foldedDistance tbl w q \<le> maxD) (Fields n) of
                   Some w \<Rightarrow> 80 - int (foldedDistance tbl w q) * 15
                 | None \<Rightarrow> 0)
         else 0)"
  unfolding scoreSuggestion_def Let_def HasPrefix_prefix Contains_sublist quo_half wordLoop_find
    levenshteinDistance_foldedDistance
  by (auto split: option.splits)

lemma scoreSuggestion_short_query:
  "length query < 3 \<Longrightarrow> \<not> sublist (ToLower tbl query) (ToLower tbl name) \<Longrightarrow>
   scoreSuggestion tbl name query = 0"
  unfolding scoreSuggestion_formula Let_def using prefix_imp_sublist by auto




section \<open>Sorting and ranking\<close>

lemma mset_insertLess: "mset (insertLess lt x ys) = add_mset x (mset ys)"
  by (induction ys) simp_all

lemma mset_sortSlice: "mset (sortSlice lt xs) = mset xs"
  by (induction xs) (simp_all add: sortSlice_def mset_insertLess)

lemma set_sortSlice: "set (sortSlice lt xs) = set xs"
  using mset_sortSlice [of lt xs] by (metis set_mset_mset)

lemma length_sortSlice: "length (sortSlice lt xs) = length xs"
  using mset_sortSlice [of lt xs] by (metis size_mset)

lemma sorted_insertLess:
  assumes asym: "\<And>a b. lt a b \<Longrightarrow> \<not> lt b a"
    and trans: "\<And>a b c. \<not> lt b a \<Longrightarrow> \<not> lt c b \<Longrightarrow> \<not> lt c a"
  shows "sorted_wrt (\<lambda>a b. \<not> lt b a) ys \<Longrightarrow> sorted_wrt (\<lambda>a b. \<not> lt b a) (insertLess lt x ys)"
proof (induction ys)
  case Nil
  show ?case by simp
next
  case (Cons y ys)
  have tail: "sorted_wrt (\<lambda>a b. \<not> lt b a) ys" and head: "\<forall>z \<in> set ys. \<not> lt z y"
    using Cons.prems by simp_all
  show ?case
  proof (cases "lt y x")
    case True
    have "set (insertLess lt x ys) = insert x (set ys)"
      using mset_insertLess [of lt x ys] by (metis set_mset_mset set_mset_add_mset_insert)
    then have "\<forall>z \<in> set (insertLess lt x ys). \<not> lt z y" using head asym [OF True] by simp
    then show ?thesis using True Cons.IH [OF tail] by simp
  next
    case False
    have "\<forall>z \<in> set ys. \<not> lt z x" using head False trans by blast
    then show ?thesis using False Cons.prems by simp
  qed
qed

lemma sorted_sortSlice:
  assumes asym: "\<And>a b. lt a b \<Longrightarrow> \<not> lt b a"
    and trans: "\<And>a b c. \<not> lt b a \<Longrightarrow> \<not> lt c b \<Longrightarrow> \<not> lt c a"
  shows "sorted_wrt (\<lambda>a b. \<not> lt b a) (sortSlice lt xs)"
proof (induction xs)
  case Nil
  show ?case by (simp add: sortSlice_def)
next
  case (Cons x xs)
  have "sortSlice lt (x # xs) = insertLess lt x (sortSlice lt xs)" by (simp add: sortSlice_def)
  then show ?case using sorted_insertLess [of lt, OF asym trans Cons.IH] by simp
qed

lemma sorted_rankedBefore: "sorted_wrt popularFirst (sortSlice rankedBefore rows)"
proof -
  have "sorted_wrt (\<lambda>a b. \<not> rankedBefore b a) (sortSlice rankedBefore rows)"
    by (rule sorted_sortSlice) (auto simp: rankedBefore_def)
  moreover have "(\<lambda>a b. \<not> rankedBefore b a) = popularFirst"
    by (intro ext) (auto simp: rankedBefore_def popularFirst_def)
  ultimately show ?thesis by simp
qed

lemma sorted_scoredLess:
  "sorted_wrt (\<lambda>a b. snd a > snd b \<or> (snd a = snd b \<and> UsageCount (fst a) \<ge> UsageCount (fst b)))
     (sortSlice scoredLess xs)"
proof -
  have "sorted_wrt (\<lambda>a b. \<not> scoredLess b a) (sortSlice scoredLess xs)"
    by (rule sorted_sortSlice) (auto simp: scoredLess_def split: if_splits)
  moreover have "(\<lambda>a b. \<not> scoredLess b a) =
      (\<lambda>a b. snd a > snd b \<or> (snd a = snd b \<and> UsageCount (fst a) \<ge> UsageCount (fst b)))"
    by (intro ext) (auto simp: scoredLess_def)
  ultimately show ?thesis by simp
qed

lemma scoreRows_filter:
  "scoreRows tbl rows query = map (\<lambda>s. (s, finalScore tbl query s)) (filter (matching tbl query) rows)"
  by (induction rows) (simp_all add: Let_def matching_def finalScore_def)

lemma sorted_wrt_take: "sorted_wrt R xs \<Longrightarrow> sorted_wrt R (take n xs)"
  by (metis append_take_drop_id sorted_wrt_append)

lemma mset_ranking: "mset (ranking tbl db query) = mset (filter (matching tbl query) (candidates db))"
proof -
  have "mset (ranking tbl db query) = image_mset fst (mset (scoreRows tbl (candidates db) query))"
    by (simp add: ranking_def mset_sortSlice)
  also have "\<dots> = mset (map fst (scoreRows tbl (candidates db) query))" by simp
  also have "map fst (scoreRows tbl (candidates db) query) = filter (matching tbl query) (candidates db)"
    by (simp add: scoreRows_filter o_def)
  finally show ?thesis .
qed

lemma sorted_ranking: "sorted_wrt (rankedAbove tbl query) (ranking tbl db query)"
proof -
  let ?xs = "sortSlice scoredLess (scoreRows tbl (candidates db) query)"
  have snd: "\<And>p. p \<in> set ?xs \<Longrightarrow> snd p = finalScore tbl query (fst p)"
    by (auto simp: set_sortSlice scoreRows_filter)
  have "sorted_wrt (\<lambda>a b. rankedAbove tbl query (fst a) (fst b)) ?xs"
    using sorted_scoredLess [of "scoreRows tbl (candidates db) query"]
    by (rule sorted_wrt_mono_rel [rotated]) (auto simp: rankedAbove_def snd)
  then show ?thesis by (simp add: ranking_def sorted_wrt_map)
qed

lemma GetItemSuggestions_ranking:
  "\<not> failing db \<Longrightarrow>
   GetItemSuggestions tbl db query limit =
     Inr (take (nat (if limit \<le> 0 then 10 else limit)) (ranking tbl db query))"
  by (simp add: GetItemSuggestions_def selectHistory_def candidates_def ranking_def Let_def take_map)


section \<open>GetItemSuggestions\<close>

lemma quo_10: "quo a 10 = (if 0 \<le> a then a div 10 else - ((- a) div 10))"
  by (auto simp: quo_def signed_divide_int_def sgn_if)

lemma quo_10_mono: "a \<le> b \<Longrightarrow> quo a 10 \<le> quo b 10"
proof -
  assume ab: "a \<le> b"
  consider "0 \<le> a" | "a < 0" "0 \<le> b" | "a < 0" "b < 0" by linarith
  then show ?thesis
  proof cases
    case 1
    then have "a div 10 \<le> b div 10" using ab by (intro zdiv_mono1) simp_all
    then show ?thesis using 1 ab by (simp add: quo_10)
  next
    case 2
    have "0 \<le> (- a) div 10" using 2 by (intro pos_imp_zdiv_nonneg_iff [THEN iffD2]) simp_all
    moreover have "0 \<le> b div 10" using 2 by (intro pos_imp_zdiv_nonneg_iff [THEN iffD2]) simp_all
    ultimately show ?thesis using 2 by (simp add: quo_10)
  next
    case 3
    have "(- b) div 10 \<le> (- a) div 10" using ab by (intro zdiv_mono1) simp_all
    then show ?thesis using 3 by (simp add: quo_10)
  qed
qed

lemma matching_ranking: "s \<in> set (ranking tbl db query) \<longleftrightarrow> s \<in> set (candidates db) \<and> matching tbl query s"
proof -
  have "set (ranking tbl db query) = set (filter (matching tbl query) (candidates db))"
    using mset_ranking [of tbl db query] by (rule mset_eq_setD)
  then show ?thesis by simp
qed

lemma GetItemSuggestions_none:
  assumes "\<not> failing db" "\<forall>s \<in> set (candidates db). \<not> matching tbl query s"
  shows "GetItemSuggestions tbl db query limit = Inr []"
proof -
  have "\<And>s. s \<notin> set (ranking tbl db query)" using assms(2) by (simp add: matching_ranking)
  then have "ranking tbl db query = []" by (cases "ranking tbl db query") auto
  then show ?thesis using assms(1) by (simp add: GetItemSuggestions_ranking)
qed

lemma fuzzy_score_positive:
  assumes "ToLower tbl name \<noteq> ToLower tbl query"
    "\<not> sublist (ToLower tbl query) (ToLower tbl name)" "3 \<le> length query"
  shows "foldedDistance tbl (ToLower tbl name) (ToLower tbl query) \<le> length query div 2 \<Longrightarrow>
      (0 < scoreSuggestion tbl name query \<longleftrightarrow>
         foldedDistance tbl (ToLower tbl name) (ToLower tbl query) \<le> 4)"
    and "\<not> foldedDistance tbl (ToLower tbl name) (ToLower tbl query) \<le> length query div 2 \<Longrightarrow>
      (0 < scoreSuggestion tbl name query \<longleftrightarrow>
        (\<exists>w. find (\<lambda>w. foldedDistance tbl w (ToLower tbl query) \<le> length query div 2)
               (Fields (ToLower tbl name)) = Some w \<and>
             foldedDistance tbl w (ToLower tbl query) \<le> 5))"
proof -
  have np: "\<not> prefix (ToLower tbl query) (ToLower tbl name)"
    using assms(2) prefix_imp_sublist by blast
  show "foldedDistance tbl (ToLower tbl name) (ToLower tbl query) \<le> length query div 2 \<Longrightarrow>
      (0 < scoreSuggestion tbl name query \<longleftrightarrow>
         foldedDistance tbl (ToLower tbl name) (ToLower tbl query) \<le> 4)"
    unfolding scoreSuggestion_formula Let_def using assms np by auto
  show "\<not> foldedDistance tbl (ToLower tbl name) (ToLower tbl query) \<le> length query div 2 \<Longrightarrow>
      (0 < scoreSuggestion tbl name query \<longleftrightarrow>
        (\<exists>w. find (\<lambda>w. foldedDistance tbl w (ToLower tbl query) \<le> length query div 2)
               (Fields (ToLower tbl name)) = Some w \<and>
             foldedDistance tbl w (ToLower tbl query) \<le> 5))"
    unfolding scoreSuggestion_formula Let_def using assms np by (auto split: option.splits)
qed

text \<open>
  Claim C2, as the code has it. With the store reachable, \<open>GetItemSuggestions\<close> with a limit
  \<open>\<le> 0\<close> behaves as with limit 10. It returns the first \<open>limit\<close> entries of a list that
  holds exactly the candidates whose base score is greater than 0, ordered by final score
  descending and, among equal final scores, by usage count descending. When no candidate
  has a positive base score (the candidate set may be empty) the result is the empty list
  and not an error.
\<close>

theorem GetItemSuggestions_ranked:
  "\<not> failing db \<Longrightarrow>
   (\<exists>ranked.
      GetItemSuggestions tbl db query limit =
        Inr (take (if limit \<le> 0 then 10 else nat limit) ranked) \<and>
      mset ranked = mset (filter (matching tbl query) (candidates db)) \<and>
      sorted_wrt (rankedAbove tbl query) ranked) \<and>
   (limit \<le> 0 \<longrightarrow> GetItemSuggestions tbl db query limit = GetItemSuggestions tbl db query 10) \<and>
   ((\<forall>s \<in> set (candidates db). \<not> matching tbl query s) \<longrightarrow>
      GetItemSuggestions tbl db query limit = Inr [])"
proof (intro conjI impI)
  assume ok: "\<not> failing db"
  have "GetItemSuggestions tbl db query limit =
          Inr (take (if limit \<le> 0 then 10 else nat limit) (ranking tbl db query)) \<and>
        mset (ranking tbl db query) = mset (filter (matching tbl query) (candidates db)) \<and>
        sorted_wrt (rankedAbove tbl query) (ranking tbl db query)"
    using ok by (simp add: GetItemSuggestions_ranking mset_ranking sorted_ranking)
  then show "\<exists>ranked.
      GetItemSuggestions tbl db query limit =
        Inr (take (if limit \<le> 0 then 10 else nat limit) ranked) \<and>
      mset ranked = mset (filter (matching tbl query) (candidates db)) \<and>
      sorted_wrt (rankedAbove tbl query) ranked"
    by (rule exI)
next
  assume "\<not> failing db" "limit \<le> 0"
  then show "GetItemSuggestions tbl db query limit = GetItemSuggestions tbl db query 10"
    by (simp add: GetItemSuggestions_def)
next
  assume "\<not> failing db" "\<forall>s \<in> set (candidates db). \<not> matching tbl query s"
  then show "GetItemSuggestions tbl db query limit = Inr []" by (rule GetItemSuggestions_none)
qed

theorem GetItemSuggestions_ranked_witness:
  "\<not> failing shop \<and>
   GetItemSuggestions latinTable shop ''milk'' 0 = GetItemSuggestions latinTable shop ''milk'' 10 \<and>
   (\<exists>ranked. GetItemSuggestions latinTable shop ''milk'' 0 = Inr (take 10 ranked) \<and>
      mset ranked = mset (filter (matching latinTable ''milk'') (candidates shop)) \<and>
      sorted_wrt (rankedAbove latinTable ''milk'') ranked) \<and>
   map_sum id (map Name) (GetItemSuggestions latinTable shop ''milk'' 0) =
     Inr [''Milk'', ''Milk chocolate'', ''Almond milk'', ''Silk''] \<and>
   GetItemSuggestions latinTable shop ''xyz123'' 10 = Inr []"
proof -
  have ok: "\<not> failing shop" by code_simp
  note t = GetItemSuggestions_ranked [OF ok, where tbl = latinTable and query = "''milk''"
      and limit = 0]
  have a: "GetItemSuggestions latinTable shop ''milk'' 0 = GetItemSuggestions latinTable shop ''milk'' 10"
    using t [THEN conjunct2, THEN conjunct1] by simp
  have b: "\<exists>ranked. GetItemSuggestions latinTable shop ''milk'' 0 = Inr (take 10 ranked) \<and>
      mset ranked = mset (filter (matching latinTable ''milk'') (candidates shop)) \<and>
      sorted_wrt (rankedAbove latinTable ''milk'') ranked"
    using t [THEN conjunct1] by simp
  have c: "map_sum id (map Name) (GetItemSuggestions latinTable shop ''milk'' 0) =
     Inr [''Milk'', ''Milk chocolate'', ''Almond milk'', ''Silk'']" by code_simp
  have d: "GetItemSuggestions latinTable shop ''xyz123'' 10 = Inr []" by code_simp
  show ?thesis using ok a b c d by (intro conjI)
qed


text \<open>
  Claim C2 as it was stated takes a candidate to match when its score is not zero. Here
  the only candidate has the base score \<open>-20\<close> (distance 6 to a query of 12 bytes), which
  is not zero, and it is not returned.
\<close>

theorem GetItemSuggestions_nonzero_counterexample:
  "scoreSuggestion latinTable ''abcdefuvwxyz'' ''abcdefghijkl'' = - 20 \<and>
   map Name (candidates longTypoShop) = [''abcdefuvwxyz''] \<and>
   \<not> failing longTypoShop \<and>
   GetItemSuggestions latinTable longTypoShop ''abcdefghijkl'' 10 = Inr []"
  by code_simp

text \<open>
  Claim C3, as the code has it. A candidate counts as a match only when its base score is
  greater than 0. Every suggestion in the result is a candidate with a positive base
  score; a candidate whose base score is 0 or negative is never in the result, whether
  that value comes from a fuzzy branch or from falling through; a candidate with a
  positive base score is in the result when the candidates with a positive base score
  fit within the limit. A match receives the boost: the result is ordered by the base
  score plus \<open>usageCount / 10\<close> (integer division), descending, and by usage count among
  equal sums. For a candidate taken by the whole-name fuzzy branch a positive base score
  means a distance of at most 4, and for one taken by the word branch a word distance of
  at most 5.
\<close>

theorem positive_score_only:
  "\<not> failing db \<Longrightarrow> GetItemSuggestions tbl db query limit = Inr out \<Longrightarrow>
   (\<forall>s \<in> set out. s \<in> set (candidates db) \<and> 0 < scoreSuggestion tbl (Name s) query) \<and>
   (\<forall>s \<in> set (candidates db). scoreSuggestion tbl (Name s) query \<le> 0 \<longrightarrow> s \<notin> set out) \<and>
   (\<forall>s \<in> set (candidates db).
      0 < scoreSuggestion tbl (Name s) query \<and>
      int (length (filter (matching tbl query) (candidates db))) \<le> (if limit \<le> 0 then 10 else limit)
      \<longrightarrow> s \<in> set out) \<and>
   (\<forall>s \<in> set out.
      ToLower tbl (Name s) \<noteq> ToLower tbl query \<and>
      \<not> sublist (ToLower tbl query) (ToLower tbl (Name s)) \<longrightarrow>
        3 \<le> length query \<and>
        (if foldedDistance tbl (ToLower tbl (Name s)) (ToLower tbl query) \<le> length query div 2
         then foldedDistance tbl (ToLower tbl (Name s)) (ToLower tbl query) \<le> 4
         else \<exists>w. find (\<lambda>w. foldedDistance tbl w (ToLower tbl query) \<le> length query div 2)
                     (Fields (ToLower tbl (Name s))) = Some w \<and>
                  foldedDistance tbl w (ToLower tbl query) \<le> 5)) \<and>
   sorted_wrt
     (\<lambda>a b. scoreSuggestion tbl (Name a) query + quo (UsageCount a) 10 >
               scoreSuggestion tbl (Name b) query + quo (UsageCount b) 10 \<or>
            (scoreSuggestion tbl (Name a) query + quo (UsageCount a) 10 =
               scoreSuggestion tbl (Name b) query + quo (UsageCount b) 10 \<and>
             UsageCount a \<ge> UsageCount b))
     out"
proof -
  assume ok: "\<not> failing db" and res: "GetItemSuggestions tbl db query limit = Inr out"
  let ?L = "nat (if limit \<le> 0 then 10 else limit)"
  have out: "out = take ?L (ranking tbl db query)"
    using ok res by (simp add: GetItemSuggestions_ranking)
  have sub: "set out \<subseteq> set (ranking tbl db query)" unfolding out by (rule set_take_subset)
  have 1: "\<forall>s \<in> set out. s \<in> set (candidates db) \<and> 0 < scoreSuggestion tbl (Name s) query"
  proof
    fix s assume "s \<in> set out"
    then have "s \<in> set (ranking tbl db query)" using sub by (rule subsetD [rotated])
    then show "s \<in> set (candidates db) \<and> 0 < scoreSuggestion tbl (Name s) query"
      by (simp add: matching_ranking matching_def)
  qed
  have 2: "\<forall>s \<in> set (candidates db). scoreSuggestion tbl (Name s) query \<le> 0 \<longrightarrow> s \<notin> set out"
  proof (intro ballI impI notI)
    fix s assume "scoreSuggestion tbl (Name s) query \<le> 0" "s \<in> set out"
    then show False using 1 by auto
  qed
  have 3: "\<forall>s \<in> set (candidates db).
      0 < scoreSuggestion tbl (Name s) query \<and>
      int (length (filter (matching tbl query) (candidates db))) \<le> (if limit \<le> 0 then 10 else limit)
      \<longrightarrow> s \<in> set out"
  proof (intro ballI impI)
    fix s assume s: "s \<in> set (candidates db)"
      and h: "0 < scoreSuggestion tbl (Name s) query \<and>
        int (length (filter (matching tbl query) (candidates db))) \<le> (if limit \<le> 0 then 10 else limit)"
    have "length (ranking tbl db query) = length (filter (matching tbl query) (candidates db))"
      using mset_ranking [of tbl db query] by (rule mset_eq_length)
    then have "length (ranking tbl db query) \<le> ?L" using h by linarith
    then have "out = ranking tbl db query" unfolding out by simp
    then show "s \<in> set out"
      using s h matching_ranking [of s tbl db query] by (simp add: matching_def)
  qed
  have 4: "\<forall>s \<in> set out.
      ToLower tbl (Name s) \<noteq> ToLower tbl query \<and>
      \<not> sublist (ToLower tbl query) (ToLower tbl (Name s)) \<longrightarrow>
        3 \<le> length query \<and>
        (if foldedDistance tbl (ToLower tbl (Name s)) (ToLower tbl query) \<le> length query div 2
         then foldedDistance tbl (ToLower tbl (Name s)) (ToLower tbl query) \<le> 4
         else \<exists>w. find (\<lambda>w. foldedDistance tbl w (ToLower tbl query) \<le> length query div 2)
                     (Fields (ToLower tbl (Name s))) = Some w \<and>
                  foldedDistance tbl w (ToLower tbl query) \<le> 5)"
  proof (intro ballI impI)
    fix s assume s: "s \<in> set out"
      and h: "ToLower tbl (Name s) \<noteq> ToLower tbl query \<and>
        \<not> sublist (ToLower tbl query) (ToLower tbl (Name s))"
    have p: "0 < scoreSuggestion tbl (Name s) query" using 1 s by simp
    have l: "3 \<le> length query"
    proof (rule ccontr)
      assume "\<not> 3 \<le> length query"
      then have "scoreSuggestion tbl (Name s) query = 0"
        using h by (intro scoreSuggestion_short_query) simp_all
      then show False using p by simp
    qed
    show "3 \<le> length query \<and>
        (if foldedDistance tbl (ToLower tbl (Name s)) (ToLower tbl query) \<le> length query div 2
         then foldedDistance tbl (ToLower tbl (Name s)) (ToLower tbl query) \<le> 4
         else \<exists>w. find (\<lambda>w. foldedDistance tbl w (ToLower tbl query) \<le> length query div 2)
                     (Fields (ToLower tbl (Name s))) = Some w \<and>
                  foldedDistance tbl w (ToLower tbl query) \<le> 5)"
      using l p fuzzy_score_positive [of tbl "Name s" query] h by simp
  qed
  have "sorted_wrt (rankedAbove tbl query) out"
    unfolding out using sorted_ranking by (rule sorted_wrt_take)
  then have 5: "sorted_wrt
     (\<lambda>a b. scoreSuggestion tbl (Name a) query + quo (UsageCount a) 10 >
               scoreSuggestion tbl (Name b) query + quo (UsageCount b) 10 \<or>
            (scoreSuggestion tbl (Name a) query + quo (UsageCount a) 10 =
               scoreSuggestion tbl (Name b) query + quo (UsageCount b) 10 \<and>
             UsageCount a \<ge> UsageCount b))
     out"
    unfolding rankedAbove_def finalScore_def .
  show ?thesis using 1 2 3 4 5 by (intro conjI)
qed

theorem positive_score_only_witness:
  "\<not> failing fuzzyShop \<and>
   scoreSuggestion latinTable ''Silk'' ''milk'' = 80 \<and> scoreSuggestion latinTable ''Sill'' ''milk'' = 60 \<and>
   scoreSuggestion latinTable ''Bread'' ''milk'' = 0 \<and>
   quo 250 10 = 25 \<and> quo 1 10 = 0 \<and>
   GetItemSuggestions latinTable fuzzyShop ''milk'' 10 =
     Inr [\<lparr>Name = ''Sill'', LastSectionID = 1, LastSectionName = ''Dairy'', UsageCount = 250\<rparr>,
          \<lparr>Name = ''Silk'', LastSectionID = 1, LastSectionName = ''Dairy'', UsageCount = 1\<rparr>] \<and>
   0 < scoreSuggestion latinTable ''Sill'' ''milk'' \<and> 0 < scoreSuggestion latinTable ''Silk'' ''milk'' \<and>
   foldedDistance latinTable (ToLower latinTable ''Sill'') (ToLower latinTable ''milk'') \<le> 4"
proof -
  let ?a = "\<lparr>Name = ''Sill'', LastSectionID = 1, LastSectionName = ''Dairy'', UsageCount = 250\<rparr>"
  let ?b = "\<lparr>Name = ''Silk'', LastSectionID = 1, LastSectionName = ''Dairy'', UsageCount = 1\<rparr>"
  have ok: "\<not> failing fuzzyShop" by code_simp
  have res: "GetItemSuggestions latinTable fuzzyShop ''milk'' 10 = Inr [?a, ?b]" by code_simp
  note t = positive_score_only [OF ok res]
  have ina: "?a \<in> set [?a, ?b]" and inb: "?b \<in> set [?a, ?b]" by simp_all
  from t [THEN conjunct1] ina
  have "?a \<in> set (candidates fuzzyShop) \<and> 0 < scoreSuggestion latinTable (Name ?a) ''milk''"
    by (rule bspec)
  then have a: "0 < scoreSuggestion latinTable ''Sill'' ''milk''" by simp
  from t [THEN conjunct1] inb
  have "?b \<in> set (candidates fuzzyShop) \<and> 0 < scoreSuggestion latinTable (Name ?b) ''milk''"
    by (rule bspec)
  then have b: "0 < scoreSuggestion latinTable ''Silk'' ''milk''" by simp
  have ne: "ToLower latinTable (Name ?a) \<noteq> ToLower latinTable ''milk'' \<and>
      \<not> sublist (ToLower latinTable ''milk'') (ToLower latinTable (Name ?a))"
  proof -
    have "\<not> Contains (ToLower latinTable ''Sill'') (ToLower latinTable ''milk'')" by code_simp
    moreover have "ToLower latinTable ''Sill'' \<noteq> ToLower latinTable ''milk''" by code_simp
    ultimately show ?thesis by (simp add: Contains_sublist)
  qed
  have near: "foldedDistance latinTable (ToLower latinTable ''Sill'') (ToLower latinTable ''milk'') \<le> length ''milk'' div 2"
    by code_simp
  from t [THEN conjunct2, THEN conjunct2, THEN conjunct2, THEN conjunct1] ina
  have "ToLower latinTable (Name ?a) \<noteq> ToLower latinTable ''milk'' \<and>
      \<not> sublist (ToLower latinTable ''milk'') (ToLower latinTable (Name ?a)) \<longrightarrow>
        3 \<le> length ''milk'' \<and>
        (if foldedDistance latinTable (ToLower latinTable (Name ?a)) (ToLower latinTable ''milk'') \<le> length ''milk'' div 2
         then foldedDistance latinTable (ToLower latinTable (Name ?a)) (ToLower latinTable ''milk'') \<le> 4
         else \<exists>w. find (\<lambda>w. foldedDistance latinTable w (ToLower latinTable ''milk'') \<le> length ''milk'' div 2)
                     (Fields (ToLower latinTable (Name ?a))) = Some w \<and>
                  foldedDistance latinTable w (ToLower latinTable ''milk'') \<le> 5)"
    by (rule bspec)
  then have d: "foldedDistance latinTable (ToLower latinTable ''Sill'') (ToLower latinTable ''milk'') \<le> 4"
    using ne near by simp
  have s1: "scoreSuggestion latinTable ''Silk'' ''milk'' = 80" by code_simp
  have s2: "scoreSuggestion latinTable ''Sill'' ''milk'' = 60" by code_simp
  have s3: "scoreSuggestion latinTable ''Bread'' ''milk'' = 0" by code_simp
  have q1: "quo 250 10 = 25" by code_simp
  have q2: "quo 1 10 = 0" by code_simp
  show ?thesis using ok s1 s2 s3 q1 q2 res a b d by (intro conjI)
qed

text \<open>
  Claim C3 as it was stated, at its own example: the name is at distance 5 from a query
  of 10 bytes, so the whole-name fuzzy branch is taken and gives \<open>100 - 5 * 20 = 0\<close>. The
  candidate has usage count 50 and is the only one, and the result is empty.
\<close>

theorem fuzzy_zero_score_counterexample:
  "levenshteinDistance latinTable ''abcdevwxyz'' ''abcdefghij'' = 5 \<and>
   5 \<le> quo (int (length ''abcdefghij'')) 2 \<and>
   \<not> Contains (ToLower latinTable ''abcdevwxyz'') (ToLower latinTable ''abcdefghij'') \<and>
   scoreSuggestion latinTable ''abcdevwxyz'' ''abcdefghij'' = 100 - 5 * 20 \<and>
   candidates typoShop =
     [\<lparr>Name = ''abcdevwxyz'', LastSectionID = 1, LastSectionName = ''Dairy'', UsageCount = 50\<rparr>] \<and>
   \<not> failing typoShop \<and>
   GetItemSuggestions latinTable typoShop ''abcdefghij'' 10 = Inr []"
  by code_simp

section \<open>The empty query\<close>

lemma descending_unique:
  fixes xs ys :: "int list"
  assumes "sorted_wrt (\<lambda>a b. a \<ge> b) xs" "sorted_wrt (\<lambda>a b. a \<ge> b) ys" "mset xs = mset ys"
  shows "xs = ys"
proof -
  have 1: "sorted (rev xs)" using assms(1) by (simp add: sorted_wrt_rev)
  have 2: "sorted (rev ys)" using assms(2) by (simp add: sorted_wrt_rev)
  have 3: "mset (rev xs) = mset (rev ys)" using assms(3) by simp
  have "sort (rev ys) = rev xs" using 3 1 by (rule properties_for_sort)
  moreover have "sort (rev ys) = rev ys" using refl 2 by (rule properties_for_sort)
  ultimately have "rev xs = rev ys" by simp
  then show ?thesis by simp
qed

lemma UsageCount_toSuggestion [simp]: "UsageCount (toSuggestion db h) = usage_count h"
  by (simp add: toSuggestion_def)

lemma Name_toSuggestion [simp]: "Name (toSuggestion db h) = row_name h"
  by (simp add: toSuggestion_def)

lemma sorted_historyWindow: "sorted_wrt popularFirst (historyWindow db n)"
  unfolding historyWindow_def using sorted_rankedBefore by (rule sorted_wrt_take)

lemma candidates_descending:
  "sorted_wrt (\<lambda>a b. a \<ge> b) (map UsageCount (candidates db))"
proof -
  have "sorted_wrt (\<lambda>a b. usage_count a \<ge> usage_count b) (historyWindow db 200)"
    using sorted_historyWindow [of db 200]
    by (rule sorted_wrt_mono_rel [rotated]) (auto simp: popularFirst_def)
  then show ?thesis by (simp add: candidates_def sorted_wrt_map)
qed

lemma decodeAfter_nonneg: "0 \<le> b0 \<Longrightarrow> 0 \<le> fst (decodeAfter b0 cs)"
  by (simp add: decodeAfter_def RuneError_def low6_def)

lemma EncodeRune_nonempty: "EncodeRune r \<noteq> []"
  by (simp add: EncodeRune_def Let_def)

lemma unicodeToLower_nonneg: "0 \<le> r \<Longrightarrow> 0 \<le> unicodeToLower tbl r"
  by (simp add: unicodeToLower_def)

lemma ToLower_nonempty: "name \<noteq> [] \<Longrightarrow> ToLower tbl name \<noteq> []"
proof (cases "list_all (\<lambda>c. byte c < 0x80) name")
  case True
  assume "name \<noteq> []"
  then show ?thesis using True by (simp add: ToLower_def)
next
  case False
  assume "name \<noteq> []"
  then obtain c cs where name: "name = c # cs" by (cases name) auto
  have "0 \<le> byte c" using byte_range by simp
  then have "0 \<le> fst (decodeAfter (byte c) cs)" by (rule decodeAfter_nonneg)
  then have "0 \<le> unicodeToLower tbl (fst (decodeAfter (byte c) cs))"
    by (rule unicodeToLower_nonneg)
  then have "Map (unicodeToLower tbl) (c # cs) \<noteq> []"
    by (simp add: Map_def EncodeRune_nonempty)
  then show ?thesis using False name by (simp add: ToLower_def)
qed

lemma ToLower_Nil [simp]: "ToLower tbl [] = []"
  by (simp add: ToLower_def)

lemma scoreSuggestion_empty_query:
  "scoreSuggestion tbl name [] = (if name = [] then 1000 else 500)"
  using ToLower_nonempty [of name tbl] by (auto simp: scoreSuggestion_def Let_def HasPrefix_def)

lemma matching_empty_query: "matching tbl [] s"
  by (simp add: matching_def scoreSuggestion_empty_query)

lemma ranking_empty_query: "mset (ranking tbl db []) = mset (candidates db)"
  by (simp add: mset_ranking matching_empty_query)

lemma ranking_empty_query_descending:
  assumes "\<forall>s \<in> set (candidates db). Name s \<noteq> []"
  shows "sorted_wrt (\<lambda>a b. a \<ge> b) (map UsageCount (ranking tbl db []))"
proof -
  have mem: "\<And>s. s \<in> set (ranking tbl db []) \<Longrightarrow> finalScore tbl [] s = 500 + quo (UsageCount s) 10"
    using assms by (simp add: matching_ranking finalScore_def scoreSuggestion_empty_query)
  have step: "\<And>a b. a \<in> set (ranking tbl db []) \<Longrightarrow> b \<in> set (ranking tbl db []) \<Longrightarrow>
      rankedAbove tbl [] a b \<Longrightarrow> UsageCount a \<ge> UsageCount b"
  proof -
    fix a b assume a: "a \<in> set (ranking tbl db [])" and b: "b \<in> set (ranking tbl db [])"
      and r: "rankedAbove tbl [] a b"
    show "UsageCount a \<ge> UsageCount b"
    proof (rule ccontr)
      assume "\<not> UsageCount b \<le> UsageCount a"
      then have lt: "UsageCount a < UsageCount b" by simp
      then have "quo (UsageCount a) 10 \<le> quo (UsageCount b) 10" by (intro quo_10_mono) simp
      then show False using r lt by (simp add: rankedAbove_def mem [OF a] mem [OF b])
    qed
  qed
  have "sorted_wrt (\<lambda>a b. UsageCount a \<ge> UsageCount b) (ranking tbl db [])"
    using sorted_ranking [of tbl "[]" db] by (rule sorted_wrt_mono_rel [rotated]) (rule step)
  then show ?thesis by (simp add: sorted_wrt_map)
qed

text \<open>
  Claim C9. For the empty query the score is 1000 for the empty name and 500 for every
  other name. With the store reachable, \<open>GetItemSuggestions\<close> returns as many suggestions
  as the limit and the candidate set allow, so it is not empty unless the store is; when
  no candidate has the empty name, the usage counts of the result are the highest usage
  counts of the candidates, in descending order.
\<close>

theorem empty_query_matches_all:
  "scoreSuggestion tbl name [] = (if name = [] then 1000 else 500) \<and>
   (\<not> failing db \<longrightarrow>
     (\<exists>out. GetItemSuggestions tbl db [] limit = Inr out \<and>
        length out = min (if limit \<le> 0 then 10 else nat limit) (length (candidates db)) \<and>
        (candidates db \<noteq> [] \<longrightarrow> out \<noteq> []) \<and>
        ((\<forall>s \<in> set (candidates db). Name s \<noteq> []) \<longrightarrow>
           map UsageCount out =
             take (if limit \<le> 0 then 10 else nat limit) (map UsageCount (candidates db)))))"
proof (intro conjI impI)
  show "scoreSuggestion tbl name [] = (if name = [] then 1000 else 500)"
    by (rule scoreSuggestion_empty_query)
next
  assume ok: "\<not> failing db"
  let ?L = "if limit \<le> 0 then 10 else nat limit"
  let ?out = "take ?L (ranking tbl db [])"
  have res: "GetItemSuggestions tbl db [] limit = Inr ?out"
    using ok by (simp add: GetItemSuggestions_ranking)
  have len: "length (ranking tbl db []) = length (candidates db)"
    using ranking_empty_query by (rule mset_eq_length)
  have 1: "length ?out = min ?L (length (candidates db))" using len by simp
  have pos: "0 < ?L" by simp
  have 2: "candidates db \<noteq> [] \<longrightarrow> ?out \<noteq> []"
  proof
    assume "candidates db \<noteq> []"
    then have "0 < length ?out" unfolding 1 using pos by simp
    then show "?out \<noteq> []" by simp
  qed
  have 3: "(\<forall>s \<in> set (candidates db). Name s \<noteq> []) \<longrightarrow>
      map UsageCount ?out = take ?L (map UsageCount (candidates db))"
  proof
    assume names: "\<forall>s \<in> set (candidates db). Name s \<noteq> []"
    have "mset (map UsageCount (ranking tbl db [])) = mset (map UsageCount (candidates db))"
      using ranking_empty_query [of tbl db] by simp
    with ranking_empty_query_descending [OF names] candidates_descending
    have "map UsageCount (ranking tbl db []) = map UsageCount (candidates db)"
      by (rule descending_unique)
    then have "take ?L (map UsageCount (ranking tbl db [])) = take ?L (map UsageCount (candidates db))"
      by (rule arg_cong)
    then show "map UsageCount ?out = take ?L (map UsageCount (candidates db))"
      unfolding take_map .
  qed
  have "GetItemSuggestions tbl db [] limit = Inr ?out \<and>
        length ?out = min ?L (length (candidates db)) \<and>
        (candidates db \<noteq> [] \<longrightarrow> ?out \<noteq> []) \<and>
        ((\<forall>s \<in> set (candidates db). Name s \<noteq> []) \<longrightarrow>
           map UsageCount ?out = take ?L (map UsageCount (candidates db)))"
    using res 1 2 3 by (intro conjI)
  then show "\<exists>out. GetItemSuggestions tbl db [] limit = Inr out \<and>
        length out = min ?L (length (candidates db)) \<and>
        (candidates db \<noteq> [] \<longrightarrow> out \<noteq> []) \<and>
        ((\<forall>s \<in> set (candidates db). Name s \<noteq> []) \<longrightarrow>
           map UsageCount out = take ?L (map UsageCount (candidates db)))"
    by (rule exI)
qed


theorem empty_query_matches_all_witness:
  "\<not> failing shop \<and>
   map Name (candidates shop) =
     [''Bread'', ''Silk'', ''Almond milk'', ''Milk chocolate'', ''Milk''] \<and>
   (\<exists>out. GetItemSuggestions latinTable shop [] 3 = Inr out \<and> length out = 3 \<and> out \<noteq> [] \<and>
      map UsageCount out = [40, 3, 2])"
proof -
  have ok: "\<not> failing shop" by code_simp
  have ne: "candidates shop \<noteq> []" by code_simp
  have names: "\<forall>s \<in> set (candidates shop). Name s \<noteq> []" by code_simp
  have len: "min (if (3::int) \<le> 0 then 10 else nat 3) (length (candidates shop)) = 3" by code_simp
  have top: "take (if (3::int) \<le> 0 then 10 else nat 3) (map UsageCount (candidates shop)) = [40, 3, 2]"
    by code_simp
  from empty_query_matches_all [where tbl = latinTable and name = "[]" and db = shop
      and limit = 3, THEN conjunct2, THEN mp, OF ok]
  obtain out where out: "GetItemSuggestions latinTable shop [] 3 = Inr out \<and>
        length out = min (if (3::int) \<le> 0 then 10 else nat 3) (length (candidates shop)) \<and>
        (candidates shop \<noteq> [] \<longrightarrow> out \<noteq> []) \<and>
        ((\<forall>s \<in> set (candidates shop). Name s \<noteq> []) \<longrightarrow>
           map UsageCount out =
             take (if (3::int) \<le> 0 then 10 else nat 3) (map UsageCount (candidates shop)))"
    by (rule exE)
  have "GetItemSuggestions latinTable shop [] 3 = Inr out \<and> length out = 3 \<and> out \<noteq> [] \<and>
      map UsageCount out = [40, 3, 2]"
    using out ne names unfolding len top by simp
  then have "\<exists>out. GetItemSuggestions latinTable shop [] 3 = Inr out \<and> length out = 3 \<and> out \<noteq> [] \<and>
      map UsageCount out = [40, 3, 2]" by (rule exI)
  moreover have "map Name (candidates shop) =
     [''Bread'', ''Silk'', ''Almond milk'', ''Milk chocolate'', ''Milk'']" by code_simp
  ultimately show ?thesis using ok by (intro conjI)
qed

section \<open>The boost against the tiers\<close>

lemma quo_10_shift: "0 \<le> b \<Longrightarrow> b + 5010 \<le> a \<Longrightarrow> quo b 10 + 501 \<le> quo a 10"
proof -
  assume b: "0 \<le> b" and a: "b + 5010 \<le> a"
  have "(b + 5010) div 10 \<le> a div 10" using a by (intro zdiv_mono1) simp_all
  moreover have "(b + 5010) div 10 = b div 10 + 501" by simp
  ultimately show ?thesis using a b by (simp add: quo_10)
qed

lemma sorted_wrt_before:
  assumes "sorted_wrt R xs" "a \<in> set xs" "j < length xs" "\<not> R (xs ! j) a" "xs ! j \<noteq> a"
  shows "\<exists>i < j. xs ! i = a"
proof -
  from assms(2) obtain i where i: "i < length xs" "xs ! i = a" by (auto simp: in_set_conv_nth)
  have "\<not> j < i"
  proof
    assume "j < i"
    then have "R (xs ! j) (xs ! i)" using assms(1) i(1) by (simp add: sorted_wrt_iff_nth_less)
    then show False using assms(4) i(2) by simp
  qed
  moreover have "i \<noteq> j" using assms(5) i(2) by auto
  ultimately have "i < j" by simp
  then show ?thesis using i(2) by (intro exI [of _ i]) simp
qed

text \<open>
  Claim C10. A candidate with base score 500 (prefix) whose usage count is at least 5010
  above that of a candidate with base score 1000 (exact) has the greater final score, and
  wherever the exact match stands in the result the prefix match stands before it. Usage
  counts are taken not to be negative; \<open>SaveItemHistory\<close> keeps them at 1 or more.
\<close>

theorem boost_outranks_tier:
  "\<not> failing db \<Longrightarrow> a \<in> set (candidates db) \<Longrightarrow> b \<in> set (candidates db) \<Longrightarrow>
   scoreSuggestion tbl (Name a) query = 500 \<Longrightarrow> scoreSuggestion tbl (Name b) query = 1000 \<Longrightarrow>
   0 \<le> UsageCount b \<Longrightarrow> UsageCount b + 5010 \<le> UsageCount a \<Longrightarrow>
   finalScore tbl query a = 500 + quo (UsageCount a) 10 \<and>
   finalScore tbl query b = 1000 + quo (UsageCount b) 10 \<and>
   finalScore tbl query a > finalScore tbl query b \<and>
   (\<forall>out. GetItemSuggestions tbl db query limit = Inr out \<longrightarrow>
      (\<forall>j < length out. out ! j = b \<longrightarrow> (\<exists>i < j. out ! i = a)))"
proof -
  assume ok: "\<not> failing db" and a: "a \<in> set (candidates db)" and b: "b \<in> set (candidates db)"
    and sa: "scoreSuggestion tbl (Name a) query = 500" and sb: "scoreSuggestion tbl (Name b) query = 1000"
    and ub: "0 \<le> UsageCount b" and ua: "UsageCount b + 5010 \<le> UsageCount a"
  let ?L = "nat (if limit \<le> 0 then 10 else limit)"
  have fa: "finalScore tbl query a = 500 + quo (UsageCount a) 10" using sa by (simp add: finalScore_def)
  have fb: "finalScore tbl query b = 1000 + quo (UsageCount b) 10" using sb by (simp add: finalScore_def)
  have gt: "finalScore tbl query a > finalScore tbl query b"
    using quo_10_shift [OF ub ua] unfolding fa fb by simp
  have ne: "b \<noteq> a" using gt by auto
  have nr: "\<not> rankedAbove tbl query b a" using gt by (simp add: rankedAbove_def)
  have ar: "a \<in> set (ranking tbl db query)" using a sa by (simp add: matching_ranking matching_def)
  have pos: "\<forall>out. GetItemSuggestions tbl db query limit = Inr out \<longrightarrow>
      (\<forall>j < length out. out ! j = b \<longrightarrow> (\<exists>i < j. out ! i = a))"
  proof (intro allI impI)
    fix out j
    assume res: "GetItemSuggestions tbl db query limit = Inr out" and j: "j < length out"
      and oj: "out ! j = b"
    have out: "out = take ?L (ranking tbl db query)"
      using ok res by (simp add: GetItemSuggestions_ranking)
    have jl: "j < ?L" and jr: "j < length (ranking tbl db query)" using j unfolding out by simp_all
    have rj: "ranking tbl db query ! j = b" using oj jl unfolding out by simp
    have "\<exists>i < j. ranking tbl db query ! i = a"
      using sorted_ranking ar jr by (rule sorted_wrt_before) (simp_all add: rj nr ne)
    then obtain i where i: "i < j" "ranking tbl db query ! i = a" by auto
    have "out ! i = a" unfolding out using i jl by simp
    then show "\<exists>i < j. out ! i = a" using i(1) by auto
  qed
  show ?thesis using fa fb gt pos by (intro conjI)
qed

theorem boost_outranks_tier_witness:
  "\<not> failing boostShop \<and>
   scoreSuggestion latinTable ''Milk chocolate'' ''milk'' = 500 \<and> scoreSuggestion latinTable ''milk'' ''milk'' = 1000 \<and>
   finalScore latinTable ''milk''
     \<lparr>Name = ''Milk chocolate'', LastSectionID = 1, LastSectionName = ''Dairy'', UsageCount = 5011\<rparr>
   > finalScore latinTable ''milk''
     \<lparr>Name = ''milk'', LastSectionID = 1, LastSectionName = ''Dairy'', UsageCount = 1\<rparr> \<and>
   GetItemSuggestions latinTable boostShop ''milk'' 10 =
     Inr [\<lparr>Name = ''Milk chocolate'', LastSectionID = 1, LastSectionName = ''Dairy'',
            UsageCount = 5011\<rparr>,
          \<lparr>Name = ''milk'', LastSectionID = 1, LastSectionName = ''Dairy'', UsageCount = 1\<rparr>]"
proof -
  let ?a = "\<lparr>Name = ''Milk chocolate'', LastSectionID = 1, LastSectionName = ''Dairy'',
            UsageCount = 5011\<rparr>"
  let ?b = "\<lparr>Name = ''milk'', LastSectionID = 1, LastSectionName = ''Dairy'', UsageCount = 1\<rparr>"
  have ok: "\<not> failing boostShop" by code_simp
  have cands: "candidates boostShop = [?a, ?b]" by code_simp
  have a: "?a \<in> set (candidates boostShop)" and b: "?b \<in> set (candidates boostShop)"
    unfolding cands by simp_all
  have sa: "scoreSuggestion latinTable (Name ?a) ''milk'' = 500" by code_simp
  have sb: "scoreSuggestion latinTable (Name ?b) ''milk'' = 1000" by code_simp
  have ub: "0 \<le> UsageCount ?b" and ua: "UsageCount ?b + 5010 \<le> UsageCount ?a" by simp_all
  have "finalScore latinTable ''milk'' ?a > finalScore latinTable ''milk'' ?b"
    using boost_outranks_tier [OF ok a b sa sb ub ua, of 10] by (elim conjE)
  moreover have "GetItemSuggestions latinTable boostShop ''milk'' 10 = Inr [?a, ?b]" by code_simp
  ultimately show ?thesis using ok sa sb by simp
qed

section \<open>GetAllItemSuggestions\<close>

lemma historyWindow_all:
  "\<exists>rows. historyWindow db n = take n rows \<and> mset rows = mset (item_history db) \<and>
     sorted_wrt popularFirst rows"
proof -
  have "historyWindow db n = take n (sortSlice rankedBefore (item_history db)) \<and>
      mset (sortSlice rankedBefore (item_history db)) = mset (item_history db) \<and>
      sorted_wrt popularFirst (sortSlice rankedBefore (item_history db))"
    by (simp add: historyWindow_def mset_sortSlice sorted_rankedBefore)
  then show ?thesis by (rule exI)
qed

lemma length_historyWindow: "length (historyWindow db n) = min n (length (item_history db))"
  by (simp add: historyWindow_def length_sortSlice min.commute)

text \<open>
  Claim C6. With the store reachable, \<open>GetAllItemSuggestions\<close> with a limit \<open>\<le> 0\<close> behaves as
  with limit 100. It returns the first \<open>limit\<close> rows of the whole table ordered by usage
  count descending and, among equal counts, by last use descending: at most \<open>limit\<close>
  suggestions, and all of them when the table has no more. No query takes part.
\<close>

theorem GetAllItemSuggestions_popular:
  "\<not> failing db \<Longrightarrow>
   (\<exists>rows. GetAllItemSuggestions db limit =
        Inr (map (toSuggestion db) (take (if limit \<le> 0 then 100 else nat limit) rows)) \<and>
      mset rows = mset (item_history db) \<and> sorted_wrt popularFirst rows) \<and>
   (\<forall>out. GetAllItemSuggestions db limit = Inr out \<longrightarrow>
      length out = min (if limit \<le> 0 then 100 else nat limit) (length (item_history db)) \<and>
      int (length out) \<le> (if limit \<le> 0 then 100 else limit)) \<and>
   (limit \<le> 0 \<longrightarrow> GetAllItemSuggestions db limit = GetAllItemSuggestions db 100)"
proof (intro conjI allI impI)
  assume ok: "\<not> failing db"
  let ?L = "if limit \<le> 0 then 100 else nat limit"
  have res: "GetAllItemSuggestions db limit = Inr (map (toSuggestion db) (historyWindow db ?L))"
    using ok by (simp add: GetAllItemSuggestions_def selectHistory_def)
  from historyWindow_all [of db ?L] obtain rows where rows:
    "historyWindow db ?L = take ?L rows \<and> mset rows = mset (item_history db) \<and>
     sorted_wrt popularFirst rows" by (rule exE)
  have "GetAllItemSuggestions db limit = Inr (map (toSuggestion db) (take ?L rows)) \<and>
      mset rows = mset (item_history db) \<and> sorted_wrt popularFirst rows"
    using res rows by simp
  then show "\<exists>rows. GetAllItemSuggestions db limit = Inr (map (toSuggestion db) (take ?L rows)) \<and>
      mset rows = mset (item_history db) \<and> sorted_wrt popularFirst rows"
    by (rule exI)
  {
    fix out assume "GetAllItemSuggestions db limit = Inr out"
    then have out: "out = map (toSuggestion db) (historyWindow db ?L)" using res by simp
    show "length out = min ?L (length (item_history db))"
      unfolding out by (simp add: length_historyWindow)
    then show "int (length out) \<le> (if limit \<le> 0 then 100 else limit)" by (simp split: if_splits)
  }
  assume "limit \<le> 0"
  then show "GetAllItemSuggestions db limit = GetAllItemSuggestions db 100"
    by (simp add: GetAllItemSuggestions_def)
qed

theorem GetAllItemSuggestions_popular_witness:
  "\<not> failing shop \<and>
   GetAllItemSuggestions shop (- 1) = GetAllItemSuggestions shop 100 \<and>
   map_sum id (map Name) (GetAllItemSuggestions shop 3) = Inr [''Bread'', ''Silk'', ''Almond milk''] \<and>
   map_sum id (map Name) (GetAllItemSuggestions shop 0) =
     Inr [''Bread'', ''Silk'', ''Almond milk'', ''Milk chocolate'', ''Milk'']"
proof -
  have ok: "\<not> failing shop" by code_simp
  have "GetAllItemSuggestions shop (- 1) = GetAllItemSuggestions shop 100"
    using GetAllItemSuggestions_popular [OF ok, of "- 1", THEN conjunct2, THEN conjunct2] by simp
  moreover have "map_sum id (map Name) (GetAllItemSuggestions shop 3) =
      Inr [''Bread'', ''Silk'', ''Almond milk'']" by code_simp
  moreover have "map_sum id (map Name) (GetAllItemSuggestions shop 0) =
     Inr [''Bread'', ''Silk'', ''Almond milk'', ''Milk chocolate'', ''Milk'']" by code_simp
  ultimately show ?thesis using ok by (intro conjI)
qed

section \<open>Deleting history rows\<close>

lemma filter_none: "(\<forall>x \<in> set xs. P x) \<Longrightarrow> filter P xs = xs"
  by (rule filter_True)

text \<open>
  Claim C7. With the store reachable, \<open>DeleteItemHistory\<close> returns the NotFound error
  exactly when no row has the given id, and then the store is unchanged; when a row has
  the id, no error is returned and the rows with that id are gone, all others kept.
\<close>

theorem DeleteItemHistory_NotFound_iff:
  "\<not> failing db \<Longrightarrow>
   (fst (DeleteItemHistory i db) = Some NotFound \<longleftrightarrow>
      (\<forall>h \<in> set (item_history db). row_id h \<noteq> i)) \<and>
   ((\<exists>h \<in> set (item_history db). row_id h = i) \<longrightarrow>
      fst (DeleteItemHistory i db) = None \<and>
      item_history (snd (DeleteItemHistory i db)) =
        filter (\<lambda>h. row_id h \<noteq> i) (item_history db) \<and>
      (\<forall>h \<in> set (item_history (snd (DeleteItemHistory i db))). row_id h \<noteq> i)) \<and>
   ((\<forall>h \<in> set (item_history db). row_id h \<noteq> i) \<longrightarrow> snd (DeleteItemHistory i db) = db)"
proof -
  assume ok: "\<not> failing db"
  have cnt: "length (filter (\<lambda>h. row_id h = i) (item_history db)) = 0 \<longleftrightarrow>
      (\<forall>h \<in> set (item_history db). row_id h \<noteq> i)"
    by (simp add: filter_empty_conv)
  have 1: "fst (DeleteItemHistory i db) = Some NotFound \<longleftrightarrow>
      (\<forall>h \<in> set (item_history db). row_id h \<noteq> i)"
    using ok cnt by (simp add: DeleteItemHistory_def Let_def)
  have 2: "(\<exists>h \<in> set (item_history db). row_id h = i) \<longrightarrow>
      fst (DeleteItemHistory i db) = None \<and>
      item_history (snd (DeleteItemHistory i db)) =
        filter (\<lambda>h. row_id h \<noteq> i) (item_history db) \<and>
      (\<forall>h \<in> set (item_history (snd (DeleteItemHistory i db))). row_id h \<noteq> i)"
    using ok cnt by (auto simp: DeleteItemHistory_def Let_def)
  have 3: "(\<forall>h \<in> set (item_history db). row_id h \<noteq> i) \<longrightarrow> snd (DeleteItemHistory i db) = db"
  proof
    assume "\<forall>h \<in> set (item_history db). row_id h \<noteq> i"
    then have "filter (\<lambda>h. row_id h \<noteq> i) (item_history db) = item_history db"
      by (rule filter_none)
    then show "snd (DeleteItemHistory i db) = db"
      using ok by (simp add: DeleteItemHistory_def Let_def)
  qed
  show ?thesis using 1 2 3 by (intro conjI)
qed

theorem DeleteItemHistory_NotFound_iff_witness:
  "\<not> failing shop \<and>
   map row_id (item_history shop) = [1, 2, 3, 4, 5] \<and>
   DeleteItemHistory 7 shop = (Some NotFound, shop) \<and>
   fst (DeleteItemHistory 4 shop) = None \<and>
   map row_name (item_history (snd (DeleteItemHistory 4 shop))) =
     [''Silk'', ''Almond milk'', ''Milk'', ''Milk chocolate'']"
proof -
  have ok: "\<not> failing shop" by code_simp
  have no7: "\<forall>h \<in> set (item_history shop). row_id h \<noteq> 7" by code_simp
  have has4: "\<exists>h \<in> set (item_history shop). row_id h = 4" by code_simp
  note t7 = DeleteItemHistory_NotFound_iff [OF ok, of 7]
  note t4 = DeleteItemHistory_NotFound_iff [OF ok, of 4]
  have a: "fst (DeleteItemHistory 7 shop) = Some NotFound"
    using t7 [THEN conjunct1] no7 by (rule iffD2)
  have b: "snd (DeleteItemHistory 7 shop) = shop"
    using t7 [THEN conjunct2, THEN conjunct2] no7 by (rule mp)
  have c: "DeleteItemHistory 7 shop = (Some NotFound, shop)"
    using a b by (simp add: prod_eq_iff)
  have d: "fst (DeleteItemHistory 4 shop) = None"
    using t4 [THEN conjunct2, THEN conjunct1, THEN mp, OF has4] by (rule conjunct1)
  have e: "map row_name (item_history (snd (DeleteItemHistory 4 shop))) =
     [''Silk'', ''Almond milk'', ''Milk'', ''Milk chocolate'']" by code_simp
  have ids: "map row_id (item_history shop) = [1, 2, 3, 4, 5]" by code_simp
  show ?thesis using ok ids c d e by (intro conjI)
qed

text \<open>
  Claim C8. \<open>DeleteItemHistoryBatch\<close> on the empty list returns 0 and leaves the store as it
  is; it never returns NotFound; with the store reachable it returns the number of rows
  whose id is in the list, removes exactly those rows, and keeps every other row and the
  sections unchanged.
\<close>

theorem DeleteItemHistoryBatch_count:
  "DeleteItemHistoryBatch [] db = (Inr 0, db) \<and>
   fst (DeleteItemHistoryBatch ids db) \<noteq> Inl NotFound \<and>
   (\<not> failing db \<longrightarrow>
      fst (DeleteItemHistoryBatch ids db) =
        Inr (int (length (filter (\<lambda>h. row_id h \<in> set ids) (item_history db)))) \<and>
      item_history (snd (DeleteItemHistoryBatch ids db)) =
        filter (\<lambda>h. row_id h \<notin> set ids) (item_history db) \<and>
      (\<forall>h \<in> set (item_history db).
         row_id h \<notin> set ids \<longrightarrow> h \<in> set (item_history (snd (DeleteItemHistoryBatch ids db)))) \<and>
      sections (snd (DeleteItemHistoryBatch ids db)) = sections db)"
proof (intro conjI impI)
  show "DeleteItemHistoryBatch [] db = (Inr 0, db)" by (simp add: DeleteItemHistoryBatch_def)
  show "fst (DeleteItemHistoryBatch ids db) \<noteq> Inl NotFound"
    by (simp add: DeleteItemHistoryBatch_def)
next
  assume ok: "\<not> failing db"
  show "fst (DeleteItemHistoryBatch ids db) =
        Inr (int (length (filter (\<lambda>h. row_id h \<in> set ids) (item_history db))))"
    using ok by (cases ids) (simp_all add: DeleteItemHistoryBatch_def)
  show hist: "item_history (snd (DeleteItemHistoryBatch ids db)) =
        filter (\<lambda>h. row_id h \<notin> set ids) (item_history db)"
    using ok by (cases ids) (simp_all add: DeleteItemHistoryBatch_def)
  show "\<forall>h \<in> set (item_history db).
         row_id h \<notin> set ids \<longrightarrow> h \<in> set (item_history (snd (DeleteItemHistoryBatch ids db)))"
    unfolding hist by simp
  show "sections (snd (DeleteItemHistoryBatch ids db)) = sections db"
    using ok by (simp add: DeleteItemHistoryBatch_def)
qed


theorem DeleteItemHistoryBatch_count_witness:
  "\<not> failing shop \<and>
   fst (DeleteItemHistoryBatch [1, 7, 3, 8] shop) = Inr 2 \<and>
   map row_id (item_history (snd (DeleteItemHistoryBatch [1, 7, 3, 8] shop))) = [2, 4, 5] \<and>
   item_history (snd (DeleteItemHistoryBatch [1, 7, 3, 8] shop)) =
     filter (\<lambda>h. row_id h \<notin> set [1, 7, 3, 8]) (item_history shop)"
proof -
  have ok: "\<not> failing shop" by code_simp
  note t = DeleteItemHistoryBatch_count [of shop "[1, 7, 3, 8]", THEN conjunct2, THEN conjunct2,
      THEN mp, OF ok]
  have n: "int (length (filter (\<lambda>h. row_id h \<in> set [1, 7, 3, 8]) (item_history shop))) = 2"
    by code_simp
  have a: "fst (DeleteItemHistoryBatch [1, 7, 3, 8] shop) = Inr 2"
    using t [THEN conjunct1] unfolding n .
  have b: "map row_id (item_history (snd (DeleteItemHistoryBatch [1, 7, 3, 8] shop))) = [2, 4, 5]"
    by code_simp
  have c: "item_history (snd (DeleteItemHistoryBatch [1, 7, 3, 8] shop)) =
     filter (\<lambda>h. row_id h \<notin> set [1, 7, 3, 8]) (item_history shop)"
    using t [THEN conjunct2, THEN conjunct1] .
  show ?thesis using ok a b c by (intro conjI)
qed

section \<open>SaveItemHistory\<close>



lemma list_ex_recordsFor:
  "list_ex (\<lambda>h. nocaseEq (row_name h) name) (item_history db) \<longleftrightarrow> recordsFor name db \<noteq> []"
  by (simp add: recordsFor_def list_ex_iff filter_empty_conv)



lemma recordUse_insert:
  assumes "\<not> failing db" "recordsFor name db = []"
  shows "item_history (recordUse name sectionID now db) =
     item_history db @
       [\<lparr>row_id = newRowId db, row_name = name, last_section_id = Some sectionID,
         usage_count = 1, last_used_at = now\<rparr>]"
  using assms
  by (simp add: recordUse_def SaveItemHistory_def upsertHistory_def list_ex_recordsFor)

lemma recordUse_update:
  assumes "\<not> failing db" "recordsFor name db \<noteq> []"
  shows "item_history (recordUse name sectionID now db) =
     map (\<lambda>h. if nocaseEq (row_name h) name
               then h\<lparr>last_section_id := Some sectionID, usage_count := usage_count h + 1,
                      last_used_at := now\<rparr>
               else h) (item_history db)"
  using assms
  by (simp add: recordUse_def SaveItemHistory_def upsertHistory_def list_ex_recordsFor)

lemma recordUse_failing [simp]: "failing (recordUse name sectionID now db) = failing db"
  by (simp add: recordUse_def SaveItemHistory_def upsertHistory_def)












lemma usagePositive_recordUse:
  assumes "usagePositive db"
  shows "usagePositive (recordUse name sectionID now db)"
proof (cases "failing db")
  case True
  then show ?thesis using assms by (simp add: recordUse_def SaveItemHistory_def)
next
  case False
  show ?thesis
  proof (cases "recordsFor name db = []")
    case True
    then show ?thesis
      using assms unfolding usagePositive_def recordUse_insert [OF False True] by simp
  next
    case ne: False
    show ?thesis
      using assms unfolding usagePositive_def recordUse_update [OF False ne, of sectionID now]
      by (auto simp: list_all_iff)
  qed
qed

lemma usagePositive_delete:
  assumes "usagePositive db"
  shows "usagePositive (snd (DeleteItemHistory i db))"
    and "usagePositive (snd (DeleteItemHistoryBatch ids db))"
  using assms
  by (auto simp: usagePositive_def DeleteItemHistory_def DeleteItemHistoryBatch_def Let_def
      list_all_iff)

lemma usagePositive_candidates:
  "usagePositive db \<Longrightarrow> s \<in> set (candidates db) \<Longrightarrow> 1 \<le> UsageCount s"
proof -
  assume u: "usagePositive db" and s: "s \<in> set (candidates db)"
  then obtain h where h: "h \<in> set (historyWindow db 200)" "s = toSuggestion db h"
    by (auto simp: candidates_def)
  have "set (historyWindow db 200) \<subseteq> set (sortSlice rankedBefore (item_history db))"
    unfolding historyWindow_def by (rule set_take_subset)
  then have "h \<in> set (item_history db)" using h(1) by (auto simp: set_sortSlice)
  then show ?thesis using u h(2) by (simp add: usagePositive_def list_all_iff)
qed




end
